theory Spec2Isabelle
  imports Main "HOL-Library.Word" "HOL-Library.Char_ord" "HOL-Library.List_Lexorder"
    "HOL-Library.FSet"
begin

chapter \<open>The file set and the merge iterators of the tsi1 index\<close>

text \<open>
  A shallow embedding of \<^verbatim>\<open>tsdb/index/tsi1/file_set.go\<close> (the file set: \<^verbatim>\<open>MustReplace\<close>,
  \<^verbatim>\<open>PrependLogFile\<close>, \<^verbatim>\<open>Metric\<close>, \<^verbatim>\<open>TagValueSeriesIDIterator\<close>, \<^verbatim>\<open>MetricTagKeysByExpr\<close>),
  of the merge iterators and adapters of \<^verbatim>\<open>tsdb/index/tsi1/tsi1.go\<close>, and of
  \<^verbatim>\<open>newSeriesCursor\<close> of \<^verbatim>\<open>tsdb/series_cursor.go\<close>, followed by the properties proved
  of them. Panics and errors are values: a function that can panic returns
  \<open>panic + 'a\<close>, one that can fail returns \<open>error + 'a\<close>.
\<close>

section \<open>Byte slices\<close>

text \<open>
  A Go \<^verbatim>\<open>[]byte\<close> is either the nil slice or a (possibly empty) sequence of bytes.
  \<^verbatim>\<open>bytes.Compare\<close> and \<^verbatim>\<open>bytes.Equal\<close> look at the contents only, so the nil slice
  and the empty slice compare equal, while \<^verbatim>\<open>x == nil\<close> tells them apart. The model
  keeps the difference: \<open>None\<close> is the nil slice, \<open>Some s\<close> a non-nil slice with
  contents \<open>s\<close>. Strings are ordered bytewise, shorter prefix first
  (\<open>HOL-Library.List_Lexorder\<close> over \<open>HOL-Library.Char_ord\<close>), as \<^verbatim>\<open>bytes.Compare\<close> orders them.
\<close>

type_synonym bytes = "string option"

definition content :: "bytes \<Rightarrow> string" where
  "content b = (case b of None \<Rightarrow> [] | Some s \<Rightarrow> s)"

definition bytes_Compare :: "bytes \<Rightarrow> bytes \<Rightarrow> int" where
  "bytes_Compare a b =
     (if content a < content b then - 1 else if content a = content b then 0 else 1)"

definition bytes_Equal :: "bytes \<Rightarrow> bytes \<Rightarrow> bool" where
  "bytes_Equal a b = (content a = content b)"

section \<open>Predicate trees (package cnosql)\<close>

text \<open>
  Modelled from the spec: the node types of package \<^verbatim>\<open>cnosql\<close> are not among the
  sources. The spec gives the predicate input as a tree of nodes tagged \<^verbatim>\<open>EQ\<close>,
  \<^verbatim>\<open>NEQ\<close>, \<^verbatim>\<open>EQREGEX\<close>, \<^verbatim>\<open>NEQREGEX\<close>, \<^verbatim>\<open>AND\<close>, \<^verbatim>\<open>OR\<close>, a parenthesis wrapper,
  \<^verbatim>\<open>VarRef\<close>, \<^verbatim>\<open>StringLiteral\<close> and \<^verbatim>\<open>RegexLiteral\<close>, and names \<^verbatim>\<open>LT\<close>, \<^verbatim>\<open>GT\<close> and
  the arithmetic operators as operators that are rejected. A compiled
  regular expression is modelled by its \<^verbatim>\<open>Match\<close> function. The \<^verbatim>\<open>Val\<close> of a
  \<^verbatim>\<open>RegexLiteral\<close> is a pointer to a compiled regular expression and can be nil:
  \<open>RegexLiteral None\<close>. \<open>IntegerLiteral\<close> stands for the literal nodes that are none
  of the above. Every node is a non-nil pointer to its struct and the children
  of a node are nodes, as the parser builds them; only a whole predicate can be
  nil.
\<close>

datatype Token =
  EQ | NEQ | EQREGEX | NEQREGEX | AND | OR | LT | LTE | GT | GTE | ADD | SUB | MUL | DIV | MOD

type_synonym Regexp = "string \<Rightarrow> bool"

datatype Expr =
    BinaryExpr Token Expr Expr
  | ParenExpr Expr
  | VarRef string
  | StringLiteral string
  | RegexLiteral "Regexp option"
  | IntegerLiteral int

text \<open>
  Modelled from the spec: \<^verbatim>\<open>cnosql.IsRegexOp\<close> is not among the sources; the spec
  names regex-match and regex-non-match as the two regular expression operators.
\<close>

definition IsRegexOp :: "Token \<Rightarrow> bool" where
  "IsRegexOp t = (t = EQREGEX \<or> t = NEQREGEX)"

text \<open>
  The error values the modelled functions return: an error of a segment (I/O,
  corruption), the error of \<^verbatim>\<open>newSeriesCursor\<close>, and the errors of
  \<^verbatim>\<open>MetricTagKeysByExpr\<close>, which print the operator or the expression.
\<close>

datatype error =
    FileError string
  | InvalidTagComparisonOperator
  | LeftSideMustBeTagKey Token
  | RightSideMustBeRegex Token
  | RightSideMustBeTagValueString Token
  | InvalidOperator
  | UnexpectedExpr Expr

section \<open>Elements, files and the file set (tsi1/file\_set.go)\<close>

text \<open>
  The element interfaces expose a name, key or value and the tombstone flag.
  An iterator over elements is modelled by the finite sequence of elements it has
  still to return; \<^verbatim>\<open>Next()\<close> pops the head and returns nil on the empty sequence.
  A nil iterator (an interface value that is nil) is \<open>None\<close> where the source tests for it;
  the merge iterators call \<^verbatim>\<open>Next\<close> on their sources without a test, and the sources
  they are given are iterators, not nil. The tag value iterator of a tag key
  element is such a source.
\<close>

record MetricElem =
  Name :: bytes
  Deleted :: bool

record TagValueElem =
  Value :: bytes
  Deleted :: bool

record TagKeyElem =
  Key :: bytes
  Deleted :: bool
  TagValueIterator :: "TagValueElem list"

text \<open>
  Modelled from the spec: \<^verbatim>\<open>tsdb.SeriesIDSet\<close> is not among the sources. The spec gives
  it as a set of series ids with \<^verbatim>\<open>Merge\<close> (in-place union), \<^verbatim>\<open>AndNot\<close> (the members
  not in the other set, as a new set) and \<^verbatim>\<open>Cardinality\<close>; the bitmap is finite.
\<close>

type_synonym SeriesIDSet = "nat fset"

definition NewSeriesIDSet :: SeriesIDSet where
  "NewSeriesIDSet = {||}"

definition AndNot :: "SeriesIDSet \<Rightarrow> SeriesIDSet \<Rightarrow> SeriesIDSet" where
  "AndNot s other = s |-| other"

definition Merge :: "SeriesIDSet \<Rightarrow> SeriesIDSet \<Rightarrow> SeriesIDSet" where
  "Merge s other = s |\<union>| other"

definition Cardinality :: "SeriesIDSet \<Rightarrow> nat" where
  "Cardinality s = fcard s"

text \<open>
  The \<^verbatim>\<open>File\<close> interface, restricted to the methods the file set calls below. A file
  set holds interface values whose dynamic values are pointers (\<^verbatim>\<open>*LogFile\<close>,
  \<^verbatim>\<open>*IndexFile\<close>); \<open>ptr\<close> is that pointer, so that two distinct file objects are
  distinct values of the model even when all their lookups agree, and \<^verbatim>\<open>==\<close> on
  interface values is equality of the modelled values. A lookup returns \<open>None\<close> for
  the nil element, nil iterator or nil set.
\<close>

record File =
  ptr :: nat
  Metric :: "bytes \<Rightarrow> MetricElem option"
  MetricIterator :: "MetricElem list option"
  TagKeyIterator :: "bytes \<Rightarrow> TagKeyElem list option"
  TagValueSeriesIDSet :: "bytes \<Rightarrow> bytes \<Rightarrow> bytes \<Rightarrow> error + SeriesIDSet option"
  TombstoneSeriesIDSet :: "error + SeriesIDSet option"

typedecl CompactionLevel

text \<open>\<open>sfile\<close> is the pointer to the series file: \<open>None\<close> is nil, \<open>Some a\<close> the address.\<close>

record FileSet =
  levels :: "CompactionLevel list"
  sfile :: "nat option"
  files :: "File list"
  manifestSize :: "64 word"

definition NewFileSet :: "CompactionLevel list \<Rightarrow> nat option \<Rightarrow> File list \<Rightarrow> FileSet" where
  "NewFileSet lvls sf fls = \<lparr>levels = lvls, sfile = sf, files = fls, manifestSize = 0\<rparr>"

definition SeriesFile :: "FileSet \<Rightarrow> nat option" where
  "SeriesFile fs = sfile fs"

definition PrependLogFile :: "FileSet \<Rightarrow> File \<Rightarrow> FileSet" where
  "PrependLogFile fs f =
     \<lparr>levels = levels fs, sfile = sfile fs, files = [f] @ files fs, manifestSize = 0\<rparr>"

subsection \<open>MustReplace\<close>

datatype panic =
    AssertFailed string
  | FirstReplacementFileNotFound
  | CannotReplaceNonContiguousFiles
  | IndexOutOfRange
  | NilPointerDereference

text \<open>
  The first loop: \<^verbatim>\<open>for ; i < len(fs.files); i++\<close>, leaving with \<^verbatim>\<open>break\<close> at the first
  index that holds \<^verbatim>\<open>oldFiles[0]\<close>, panicking at the last index when it does not. On an
  empty file list the body never runs and \<open>i\<close> stays \<open>0\<close>.
\<close>

function findFirstOld :: "File list \<Rightarrow> File \<Rightarrow> nat \<Rightarrow> panic + nat" where
  "findFirstOld fls old0 i =
     (if i < length fls then
        (if fls ! i = old0 then Inr i
         else if i = length fls - 1 then Inl FirstReplacementFileNotFound
         else findFirstOld fls old0 (i + 1))
      else Inr i)"
  by pat_completeness auto
termination
  by (relation "measure (\<lambda>(fls, old0, i). length fls - i)") auto

declare findFirstOld.simps [simp del]

text \<open>
  The second loop: \<^verbatim>\<open>for j := range oldFiles\<close>, reading \<^verbatim>\<open>fs.files[i+j]\<close>. The read
  panics at run time when \<open>i + j\<close> is out of range.
\<close>

function checkContiguous :: "File list \<Rightarrow> File list \<Rightarrow> nat \<Rightarrow> nat \<Rightarrow> panic + unit" where
  "checkContiguous fls olds i j =
     (if j < length olds then
        (if i + j < length fls then
           (if fls ! (i + j) \<noteq> olds ! j then Inl CannotReplaceNonContiguousFiles
            else checkContiguous fls olds i (j + 1))
         else Inl IndexOutOfRange)
      else Inr ())"
  by pat_completeness auto
termination
  by (relation "measure (\<lambda>(fls, olds, i, j). length olds - j)") auto

declare checkContiguous.simps [simp del]

text \<open>
  \<^verbatim>\<open>other\<close> is a fresh slice of length \<^verbatim>\<open>len(fs.files)-len(oldFiles)+1\<close>: its first \<open>i\<close>
  cells are copied from \<^verbatim>\<open>fs.files[:i]\<close>, cell \<open>i\<close> is the new file, the cells after it
  are copied from \<^verbatim>\<open>fs.files[i+len(oldFiles):]\<close>. The struct literal of the result
  sets \<^verbatim>\<open>levels\<close> and \<^verbatim>\<open>files\<close> only; the other two fields are zero values.
  The receiver is only read.
\<close>

definition MustReplace :: "FileSet \<Rightarrow> File list \<Rightarrow> File \<Rightarrow> panic + FileSet" where
  "MustReplace fs oldFiles newFile =
     (if \<not> length oldFiles > 0 then Inl (AssertFailed ''cannot replace empty files'')
      else
        (case findFirstOld (files fs) (oldFiles ! 0) 0 of
           Inl p \<Rightarrow> Inl p
         | Inr i \<Rightarrow>
             (case checkContiguous (files fs) oldFiles i 0 of
                Inl p \<Rightarrow> Inl p
              | Inr u \<Rightarrow>
                  Inr \<lparr>levels = levels fs, sfile = None,
                       files = take i (files fs) @ [newFile] @ drop (i + length oldFiles) (files fs),
                       manifestSize = 0\<rparr>)))"

section \<open>Merge iterators (tsi1.go)\<close>

text \<open>
  \<^verbatim>\<open>metricMergeIterator\<close>, \<^verbatim>\<open>tagKeyMergeIterator\<close> and \<^verbatim>\<open>tagValueMergeIterator\<close> are
  the same code up to the accessor (\<^verbatim>\<open>Name\<close>, \<^verbatim>\<open>Key\<close>, \<^verbatim>\<open>Value\<close>); the model takes the
  accessor as the parameter \<open>key\<close>. The struct holds the reused group \<^verbatim>\<open>e\<close> and the
  two slices \<^verbatim>\<open>buf\<close> and \<^verbatim>\<open>itrs\<close>, which the constructor allocates with the same
  length and no code resizes: slot \<open>i\<close> of \<open>mrg_slots\<close> is the pair
  \<^verbatim>\<open>(buf[i], itrs[i])\<close>, with \<open>None\<close> for a nil buffer and the source iterator as the
  sequence it has still to return.
\<close>

record 'e mergeIterator =
  mrg_e :: "'e list"
  mrg_slots :: "('e option \<times> 'e list) list"

definition MergeIterators :: "'e list list \<Rightarrow> 'e mergeIterator option" where
  "MergeIterators itrs =
     (if length itrs = 0 then None
      else Some \<lparr>mrg_e = [], mrg_slots = map (\<lambda>it. (None, it)) itrs\<rparr>)"

definition MergeMetricIterators :: "MetricElem list list \<Rightarrow> MetricElem mergeIterator option" where
  "MergeMetricIterators itrs = MergeIterators itrs"

definition MergeTagKeyIterators :: "TagKeyElem list list \<Rightarrow> TagKeyElem mergeIterator option" where
  "MergeTagKeyIterators itrs = MergeIterators itrs"

definition MergeTagValueIterators :: "TagValueElem list list \<Rightarrow> TagValueElem mergeIterator option" where
  "MergeTagValueIterators itrs = MergeIterators itrs"

text \<open>
  The first loop of \<^verbatim>\<open>Next\<close>. \<open>refill\<close> is the step \<^verbatim>\<open>if buf == nil { buf = itrs[i].Next() ... }\<close>
  on one slot; \<open>lower\<close> is the update of the local \<^verbatim>\<open>name\<close>, whose nil value means
  that no name has been taken yet; \<open>lowest\<close> runs over the slots in index order.
\<close>

fun refill :: "'e option \<times> 'e list \<Rightarrow> 'e option \<times> 'e list" where
  "refill (None, []) = (None, [])"
| "refill (None, x # it) = (Some x, it)"
| "refill (Some b, it) = (Some b, it)"

definition lower :: "bytes \<Rightarrow> bytes \<Rightarrow> bytes" where
  "lower name k = (if name = None \<or> bytes_Compare k name = - 1 then k else name)"

fun lowest :: "('e \<Rightarrow> bytes) \<Rightarrow> bytes \<Rightarrow> ('e option \<times> 'e list) list
    \<Rightarrow> bytes \<times> ('e option \<times> 'e list) list" where
  "lowest key name [] = (name, [])"
| "lowest key name (s # ss) =
     (case refill s of
        (None, it) \<Rightarrow>
          (case lowest key name ss of (n, ss') \<Rightarrow> (n, (None, it) # ss'))
      | (Some b, it) \<Rightarrow>
          (case lowest key (lower name (key b)) ss of (n, ss') \<Rightarrow> (n, (Some b, it) # ss')))"

text \<open>
  The second loop: every buffered element whose key equals \<^verbatim>\<open>name\<close> is appended to
  the group, in index order, and its buffer is cleared.
\<close>

fun collect :: "('e \<Rightarrow> bytes) \<Rightarrow> bytes \<Rightarrow> ('e option \<times> 'e list) list
    \<Rightarrow> 'e list \<times> ('e option \<times> 'e list) list" where
  "collect key name [] = ([], [])"
| "collect key name ((None, it) # ss) =
     (case collect key name ss of (g, ss') \<Rightarrow> (g, (None, it) # ss'))"
| "collect key name ((Some b, it) # ss) =
     (case collect key name ss of (g, ss') \<Rightarrow>
        if \<not> bytes_Equal (key b) name then (g, (Some b, it) # ss')
        else (b # g, (None, it) # ss'))"

definition merge_Next :: "('e \<Rightarrow> bytes) \<Rightarrow> 'e mergeIterator \<Rightarrow> 'e list option \<times> 'e mergeIterator" where
  "merge_Next key itr =
     (case lowest key None (mrg_slots itr) of (name, ss) \<Rightarrow>
        if name = None then (None, itr\<lparr>mrg_slots := ss\<rparr>)
        else (case collect key name ss of (g, ss') \<Rightarrow>
                (Some g, itr\<lparr>mrg_e := g, mrg_slots := ss'\<rparr>)))"

definition metricMergeIterator_Next ::
  "MetricElem mergeIterator \<Rightarrow> MetricElem list option \<times> MetricElem mergeIterator" where
  "metricMergeIterator_Next = merge_Next MetricElem.Name"

definition tagKeyMergeIterator_Next ::
  "TagKeyElem mergeIterator \<Rightarrow> TagKeyElem list option \<times> TagKeyElem mergeIterator" where
  "tagKeyMergeIterator_Next = merge_Next TagKeyElem.Key"

definition tagValueMergeIterator_Next ::
  "TagValueElem mergeIterator \<Rightarrow> TagValueElem list option \<times> TagValueElem mergeIterator" where
  "tagValueMergeIterator_Next = merge_Next TagValueElem.Value"

text \<open>
  The merged elements (\<^verbatim>\<open>metricMergeElem\<close>, \<^verbatim>\<open>tagKeyMergeElem\<close>, \<^verbatim>\<open>tagValueMergeElem\<close>)
  are the groups: name and tombstone flag are those of the first member, nil and
  false on the empty group.
\<close>

definition mergeElem_key :: "('e \<Rightarrow> bytes) \<Rightarrow> 'e list \<Rightarrow> bytes" where
  "mergeElem_key key p = (if length p = 0 then None else key (p ! 0))"

definition mergeElem_Deleted :: "('e \<Rightarrow> bool) \<Rightarrow> 'e list \<Rightarrow> bool" where
  "mergeElem_Deleted del p = (if length p = 0 then False else del (p ! 0))"

definition metricMergeElem_Name :: "MetricElem list \<Rightarrow> bytes" where
  "metricMergeElem_Name = mergeElem_key MetricElem.Name"

definition metricMergeElem_Deleted :: "MetricElem list \<Rightarrow> bool" where
  "metricMergeElem_Deleted = mergeElem_Deleted MetricElem.Deleted"

definition tagKeyMergeElem_Key :: "TagKeyElem list \<Rightarrow> bytes" where
  "tagKeyMergeElem_Key = mergeElem_key TagKeyElem.Key"

definition tagKeyMergeElem_Deleted :: "TagKeyElem list \<Rightarrow> bool" where
  "tagKeyMergeElem_Deleted = mergeElem_Deleted TagKeyElem.Deleted"

definition tagValueMergeElem_Value :: "TagValueElem list \<Rightarrow> bytes" where
  "tagValueMergeElem_Value = mergeElem_key TagValueElem.Value"

definition tagValueMergeElem_Deleted :: "TagValueElem list \<Rightarrow> bool" where
  "tagValueMergeElem_Deleted = mergeElem_Deleted TagValueElem.Deleted"

text \<open>
  \<^verbatim>\<open>tagKeyMergeElem.TagValueIterator\<close>: the sub-iterators of the members are appended
  one by one, and the loop breaks after the first member marked deleted.
\<close>

fun tagValueIterators :: "TagKeyElem list \<Rightarrow> TagValueElem list list" where
  "tagValueIterators [] = []"
| "tagValueIterators (e # p) =
     TagKeyElem.TagValueIterator e # (if TagKeyElem.Deleted e then [] else tagValueIterators p)"

definition tagKeyMergeElem_TagValueIterator :: "TagKeyElem list \<Rightarrow> TagValueElem mergeIterator option" where
  "tagKeyMergeElem_TagValueIterator p =
     (if length p = 0 then None else MergeTagValueIterators (tagValueIterators p))"

text \<open>
  The adapters \<^verbatim>\<open>tsdbMetricIteratorAdapter\<close>, \<^verbatim>\<open>tsdbTagKeyIteratorAdapter\<close> and
  \<^verbatim>\<open>tsdbTagValueIteratorAdapter\<close> wrap any iterator of the interface. The wrapped
  iterator is its state \<open>s\<close> with its \<^verbatim>\<open>Next\<close> method \<open>nxt\<close>; \<open>del\<close> and \<open>nm\<close> are the
  methods \<^verbatim>\<open>Deleted\<close> and \<^verbatim>\<open>Name\<close> (\<^verbatim>\<open>Key\<close>, \<^verbatim>\<open>Value\<close>) of its elements. The loop
  \<^verbatim>\<open>for { ... continue ... }\<close> need not end on an arbitrary iterator, so the result is
  an option: \<open>None\<close> is the loop that never returns. The error result of the source
  is always nil and is left out.
\<close>

partial_function (option) tsdbIteratorAdapter_Next ::
  "('s \<Rightarrow> 'x option \<times> 's) \<Rightarrow> ('x \<Rightarrow> bool) \<Rightarrow> ('x \<Rightarrow> bytes) \<Rightarrow> 's \<Rightarrow> (bytes \<times> 's) option" where
  "tsdbIteratorAdapter_Next nxt del nm s =
     (case nxt s of
        (None, s') \<Rightarrow> Some (None, s')
      | (Some x, s') \<Rightarrow>
          if del x then tsdbIteratorAdapter_Next nxt del nm s' else Some (nm x, s'))"

subsection \<open>Every non-nil result of Next consumes an element\<close>

text \<open>
  The buffered elements of the slots in index order, the keys of these, what
  clearing the buffers of a name does to one slot, and the number of elements a
  slot has still to return.
\<close>

fun buffered :: "('e option \<times> 'e list) list \<Rightarrow> 'e list" where
  "buffered [] = []"
| "buffered ((None, it) # ss) = buffered ss"
| "buffered ((Some b, it) # ss) = b # buffered ss"

definition heads :: "('e \<Rightarrow> bytes) \<Rightarrow> ('e option \<times> 'e list) list \<Rightarrow> bytes list" where
  "heads key ss = map key (buffered ss)"

fun consume :: "('e \<Rightarrow> bytes) \<Rightarrow> bytes \<Rightarrow> 'e option \<times> 'e list \<Rightarrow> 'e option \<times> 'e list" where
  "consume key name (None, it) = (None, it)"
| "consume key name (Some b, it) = (if bytes_Equal (key b) name then (None, it) else (Some b, it))"

fun pending1 :: "'e option \<times> 'e list \<Rightarrow> nat" where
  "pending1 (None, it) = length it"
| "pending1 (Some b, it) = Suc (length it)"

definition pending :: "('e option \<times> 'e list) list \<Rightarrow> nat" where
  "pending ss = sum_list (map pending1 ss)"

lemma pending1_refill [simp]: "pending1 (refill s) = pending1 s"
  by (cases s rule: refill.cases) simp_all

lemma pending_refill [simp]: "pending (map refill ss) = pending ss"
  by (induction ss) (auto simp: pending_def)

lemma lowest_eq:
  "lowest key name ss = (foldl lower name (heads key (map refill ss)), map refill ss)"
proof (induction ss arbitrary: name)
  case Nil
  then show ?case by (simp add: heads_def)
next
  case (Cons s ss)
  show ?case
  proof (cases "refill s")
    case (Pair b it)
    then show ?thesis by (cases b) (simp_all add: Cons.IH heads_def)
  qed
qed

lemma collect_eq:
  "collect key name ss =
     (filter (\<lambda>b. bytes_Equal (key b) name) (buffered ss), map (consume key name) ss)"
  by (induction ss rule: buffered.induct) simp_all

lemma foldl_lower_mem: "foldl lower name ks \<in> insert name (set ks)"
  by (induction ks arbitrary: name) (auto simp: lower_def)

lemma pending_consume:
  "pending (map (consume key name) ss)
     + length (filter (\<lambda>b. bytes_Equal (key b) name) (buffered ss)) = pending ss"
  by (induction ss rule: buffered.induct) (simp_all add: pending_def)

lemma merge_Next_eq:
  "merge_Next key itr =
     (let ss = map refill (mrg_slots itr); name = foldl lower None (heads key ss) in
        if name = None then (None, itr\<lparr>mrg_slots := ss\<rparr>)
        else (Some (filter (\<lambda>b. bytes_Equal (key b) name) (buffered ss)),
              itr\<lparr>mrg_e := filter (\<lambda>b. bytes_Equal (key b) name) (buffered ss),
                  mrg_slots := map (consume key name) ss\<rparr>))"
  by (simp add: merge_Next_def lowest_eq collect_eq Let_def)

lemma lowest_name_buffered:
  assumes "foldl lower None (heads key ss) = name" "name \<noteq> None"
  shows "filter (\<lambda>b. bytes_Equal (key b) name) (buffered ss) \<noteq> []"
proof -
  from assms foldl_lower_mem [of None "heads key ss"]
  have "name \<in> set (heads key ss)" by auto
  then obtain b where b: "b \<in> set (buffered ss)" "key b = name" by (auto simp: heads_def)
  then have "b \<in> set (filter (\<lambda>b. bytes_Equal (key b) name) (buffered ss))"
    by (simp add: bytes_Equal_def)
  then show ?thesis by (metis empty_iff empty_set)
qed

lemma merge_Next_Some:
  assumes "merge_Next key itr = (Some g, itr')"
  shows "g \<noteq> [] \<and> pending (mrg_slots itr') < pending (mrg_slots itr)"
proof -
  let ?ss = "map refill (mrg_slots itr)"
  let ?name = "foldl lower None (heads key ?ss)"
  from assms have nn: "?name \<noteq> None"
    by (auto simp: merge_Next_eq Let_def split: if_splits)
  with assms have g: "g = filter (\<lambda>b. bytes_Equal (key b) ?name) (buffered ?ss)"
    and i: "mrg_slots itr' = map (consume key ?name) ?ss"
    by (auto simp: merge_Next_eq Let_def)
  from lowest_name_buffered [OF refl nn] g have ne: "g \<noteq> []" by simp
  from pending_consume [of key ?name ?ss] g i
  have "pending (mrg_slots itr') + length g = pending (mrg_slots itr)" by simp
  with ne show ?thesis by (cases g) auto
qed

text \<open>
  The loop \<^verbatim>\<open>for e := itr.Next(); e != nil; e = itr.Next()\<close> over a merge iterator
  sees the results of \<open>Next\<close> up to the first nil: \<open>drain\<close> is their sequence. It is
  total, since every non-nil result takes at least one element out of the slots.
\<close>

function drain :: "('e \<Rightarrow> bytes) \<Rightarrow> 'e mergeIterator \<Rightarrow> 'e list list" where
  "drain key itr =
     (case merge_Next key itr of
        (None, itr') \<Rightarrow> []
      | (Some g, itr') \<Rightarrow> g # drain key itr')"
  by pat_completeness auto
termination
proof (relation "measure (\<lambda>(key, itr). pending (mrg_slots itr))")
  show "wf (measure (\<lambda>(key, itr). pending (mrg_slots itr)))" by simp
next
  fix key :: "'e \<Rightarrow> bytes" and itr x1 x2 g
  assume "(x1, x2) = merge_Next key itr" "x1 = Some g"
  then have "merge_Next key itr = (Some g, x2)" by simp
  from merge_Next_Some [OF this]
  show "((key, x2), (key, itr)) \<in> measure (\<lambda>(key, itr). pending (mrg_slots itr))" by simp
qed

declare drain.simps [simp del]

subsection \<open>Sorted sources\<close>

text \<open>
  A source is sorted when the contents of its keys increase strictly, bytewise.
  What a slot has still to return is its buffered element, if any, and then the
  rest of its source.
\<close>

definition ascending :: "('e \<Rightarrow> bytes) \<Rightarrow> 'e list \<Rightarrow> bool" where
  "ascending key xs = sorted_wrt (\<lambda>a b. content (key a) < content (key b)) xs"

fun rest :: "'e option \<times> 'e list \<Rightarrow> 'e list" where
  "rest (None, it) = it"
| "rest (Some b, it) = b # it"

definition slots_ascending :: "('e \<Rightarrow> bytes) \<Rightarrow> 'e mergeIterator \<Rightarrow> bool" where
  "slots_ascending key itr = (\<forall>s \<in> set (mrg_slots itr). ascending key (rest s))"

section \<open>The read surface of the file set (tsi1/file\_set.go)\<close>

text \<open>
  \<^verbatim>\<open>FileSet.Metric\<close>: the loop over \<^verbatim>\<open>fs.files\<close> in index order, with its three
  branches (\<^verbatim>\<open>continue\<close> on nil, \<^verbatim>\<open>return nil\<close> on a deleted element, \<^verbatim>\<open>return e\<close>).
\<close>

fun Metric_loop :: "File list \<Rightarrow> bytes \<Rightarrow> MetricElem option" where
  "Metric_loop [] name = None"
| "Metric_loop (f # fs) name =
     (case File.Metric f name of
        None \<Rightarrow> Metric_loop fs name
      | Some e \<Rightarrow> if MetricElem.Deleted e then None else Some e)"

definition FileSet_Metric :: "FileSet \<Rightarrow> bytes \<Rightarrow> MetricElem option" where
  "FileSet_Metric fs name = Metric_loop (files fs) name"

text \<open>The iterators of the files that are not nil, in file order, are merged.\<close>

definition FileSet_MetricIterator :: "FileSet \<Rightarrow> MetricElem mergeIterator option" where
  "FileSet_MetricIterator fs =
     MergeMetricIterators (List.map_filter File.MetricIterator (files fs))"

definition FileSet_TagKeyIterator :: "FileSet \<Rightarrow> bytes \<Rightarrow> TagKeyElem mergeIterator option" where
  "FileSet_TagKeyIterator fs name =
     MergeTagKeyIterators (List.map_filter (\<lambda>f. File.TagKeyIterator f name) (files fs))"

subsection \<open>TagValueSeriesIDIterator\<close>

text \<open>
  The loop runs from the last file to the first; the list argument of the loop
  function is \<open>fs.files\<close> reversed. \<open>ss\<close> is the running set and \<open>ftss\<close> the
  tombstone set fetched from the file of the previous iteration (nil before the
  first). The result is the iterator over \<open>ss\<close>, modelled by the set itself.
\<close>

fun tagValueSeriesLoop ::
  "bytes \<Rightarrow> bytes \<Rightarrow> bytes \<Rightarrow> File list \<Rightarrow> SeriesIDSet \<Rightarrow> SeriesIDSet option \<Rightarrow> error + SeriesIDSet" where
  "tagValueSeriesLoop name key val [] ss ftss = Inr ss"
| "tagValueSeriesLoop name key val (f # fls) ss ftss =
     (let ss1 = (case ftss of
                   None \<Rightarrow> ss
                 | Some t \<Rightarrow> if Cardinality t > 0 then AndNot ss t else ss)
      in case File.TagValueSeriesIDSet f name key val of
           Inl err \<Rightarrow> Inl err
         | Inr fss \<Rightarrow>
             (let ss2 = (case fss of None \<Rightarrow> ss1 | Some s \<Rightarrow> Merge ss1 s)
              in case File.TombstoneSeriesIDSet f of
                   Inl err \<Rightarrow> Inl err
                 | Inr t \<Rightarrow> tagValueSeriesLoop name key val fls ss2 t))"

definition FileSet_TagValueSeriesIDIterator ::
  "FileSet \<Rightarrow> bytes \<Rightarrow> bytes \<Rightarrow> bytes \<Rightarrow> error + SeriesIDSet" where
  "FileSet_TagValueSeriesIDIterator fs name key val =
     tagValueSeriesLoop name key val (rev (files fs)) NewSeriesIDSet None"

subsection \<open>MetricTagKeysByExpr\<close>

text \<open>
  A \<^verbatim>\<open>map[string]struct{}\<close> is a set of strings; the nil map is \<open>None\<close>.
  Modelled from the spec: \<^verbatim>\<open>unionStringSets\<close> and \<^verbatim>\<open>intersectStringSets\<close> are not
  among the sources; the spec says that OR unions and AND intersects.
\<close>

definition unionStringSets :: "string set \<Rightarrow> string set \<Rightarrow> string set" where
  "unionStringSets a b = a \<union> b"

definition intersectStringSets :: "string set \<Rightarrow> string set \<Rightarrow> string set" where
  "intersectStringSets a b = a \<inter> b"

text \<open>
  \<^verbatim>\<open>tagKeysByFilter\<close>: the loop over the merged tag key iterator. \<^verbatim>\<open>regex\<close> is a
  pointer; calling \<^verbatim>\<open>Match\<close> on nil panics.
\<close>

fun tagKeysByFilter_loop ::
  "Token \<Rightarrow> bytes \<Rightarrow> Regexp option \<Rightarrow> TagKeyElem list list \<Rightarrow> string set \<Rightarrow> panic + string set" where
  "tagKeysByFilter_loop tok val regex [] ss = Inr ss"
| "tagKeysByFilter_loop tok val regex (e # es) ss =
     (case (case tok of
              EQ \<Rightarrow> Inr (bytes_Equal (tagKeyMergeElem_Key e) val)
            | NEQ \<Rightarrow> Inr (\<not> bytes_Equal (tagKeyMergeElem_Key e) val)
            | EQREGEX \<Rightarrow>
                (case regex of
                   None \<Rightarrow> Inl NilPointerDereference
                 | Some re \<Rightarrow> Inr (re (content (tagKeyMergeElem_Key e))))
            | NEQREGEX \<Rightarrow>
                (case regex of
                   None \<Rightarrow> Inl NilPointerDereference
                 | Some re \<Rightarrow> Inr (\<not> re (content (tagKeyMergeElem_Key e))))
            | _ \<Rightarrow> Inr False) of
        Inl p \<Rightarrow> Inl p
      | Inr matched \<Rightarrow>
          if \<not> matched then tagKeysByFilter_loop tok val regex es ss
          else tagKeysByFilter_loop tok val regex es (insert (content (tagKeyMergeElem_Key e)) ss))"

definition tagKeysByFilter ::
  "FileSet \<Rightarrow> bytes \<Rightarrow> Token \<Rightarrow> bytes \<Rightarrow> Regexp option \<Rightarrow> panic + string set" where
  "tagKeysByFilter fs name tok val regex =
     (case FileSet_TagKeyIterator fs name of
        None \<Rightarrow> Inr {}
      | Some itr \<Rightarrow> tagKeysByFilter_loop tok val regex (drain TagKeyElem.Key itr) {})"

text \<open>The keys of all elements of the merged tag key iterator: the case of the nil expression.\<close>

definition allTagKeys :: "FileSet \<Rightarrow> bytes \<Rightarrow> string set" where
  "allTagKeys fs name =
     (case FileSet_TagKeyIterator fs name of
        None \<Rightarrow> {}
      | Some itr \<Rightarrow>
          fold (\<lambda>e m. insert (content (tagKeyMergeElem_Key e)) m) (drain TagKeyElem.Key itr) {})"

text \<open>
  The type switch on a node that is not nil. The result is a panic, or the pair
  of the source's results: an error, or a key set that may be the nil map. The
  \<^verbatim>\<open>Val\<close> of a regex literal is handed to \<^verbatim>\<open>tagKeysByFilter\<close> as it is, nil or not.
\<close>

fun tagKeysByExpr :: "FileSet \<Rightarrow> bytes \<Rightarrow> Expr \<Rightarrow> panic + (error + string set option)" where
  "tagKeysByExpr fs name (BinaryExpr tok lhs rhs) =
     (if tok = EQ \<or> tok = NEQ \<or> tok = EQREGEX \<or> tok = NEQREGEX then
        (case lhs of
           VarRef tag \<Rightarrow>
             if tag \<noteq> ''_tagKey'' then Inr (Inr None)
             else if IsRegexOp tok then
               (case rhs of
                  RegexLiteral re \<Rightarrow>
                    (case tagKeysByFilter fs name tok None re of
                       Inl p \<Rightarrow> Inl p
                     | Inr ks \<Rightarrow> Inr (Inr (Some ks)))
                | _ \<Rightarrow> Inr (Inl (RightSideMustBeRegex tok)))
             else
               (case rhs of
                  StringLiteral s \<Rightarrow>
                    (case tagKeysByFilter fs name tok (Some s) None of
                       Inl p \<Rightarrow> Inl p
                     | Inr ks \<Rightarrow> Inr (Inr (Some ks)))
                | _ \<Rightarrow> Inr (Inl (RightSideMustBeTagValueString tok)))
         | _ \<Rightarrow> Inr (Inl (LeftSideMustBeTagKey tok)))
      else if tok = AND \<or> tok = OR then
        (case tagKeysByExpr fs name lhs of
           Inl p \<Rightarrow> Inl p
         | Inr (Inl err) \<Rightarrow> Inr (Inl err)
         | Inr (Inr l) \<Rightarrow>
             (case tagKeysByExpr fs name rhs of
                Inl p \<Rightarrow> Inl p
              | Inr (Inl err) \<Rightarrow> Inr (Inl err)
              | Inr (Inr r) \<Rightarrow>
                  (case l of
                     Some ls \<Rightarrow>
                       (case r of
                          Some rs \<Rightarrow>
                            if tok = OR then Inr (Inr (Some (unionStringSets ls rs)))
                            else Inr (Inr (Some (intersectStringSets ls rs)))
                        | None \<Rightarrow> Inr (Inr (Some ls)))
                   | None \<Rightarrow>
                       (case r of
                          Some rs \<Rightarrow> Inr (Inr (Some rs))
                        | None \<Rightarrow> Inr (Inr None)))))
      else Inr (Inl InvalidOperator))"
| "tagKeysByExpr fs name (ParenExpr e) = tagKeysByExpr fs name e"
| "tagKeysByExpr fs name e = Inr (Inl (UnexpectedExpr e))"

definition MetricTagKeysByExpr ::
  "FileSet \<Rightarrow> bytes \<Rightarrow> Expr option \<Rightarrow> panic + (error + string set option)" where
  "MetricTagKeysByExpr fs name expr =
     (case expr of
        None \<Rightarrow> Inr (Inr (Some (allTagKeys fs name)))
      | Some e \<Rightarrow> tagKeysByExpr fs name e)"

section \<open>The series cursor (tsdb/series\_cursor.go)\<close>

text \<open>
  Modelled from the spec: \<^verbatim>\<open>cnosql.WalkFunc\<close> is not among the sources. The spec has
  the validation look at the operators anywhere in the tree: the function is
  applied to every node of the tree, a node before its children and the left
  child before the right one, and is never applied on a nil tree.
\<close>

fun nodes :: "Expr \<Rightarrow> Expr list" where
  "nodes (BinaryExpr tok lhs rhs) = BinaryExpr tok lhs rhs # nodes lhs @ nodes rhs"
| "nodes (ParenExpr e) = ParenExpr e # nodes e"
| "nodes e = [e]"

definition WalkFunc :: "Expr option \<Rightarrow> (Expr \<Rightarrow> 's \<Rightarrow> 's) \<Rightarrow> 's \<Rightarrow> 's" where
  "WalkFunc node fn s = (case node of None \<Rightarrow> s | Some e \<Rightarrow> fold fn (nodes e) s)"

text \<open>
  The index set is the collaborator that reads the index: \<^verbatim>\<open>indexSet.MetricIterator()\<close>
  is the only call \<^verbatim>\<open>newSeriesCursor\<close> makes on it. The calls made are recorded in a
  log that the function takes and returns. \<open>'m\<close> is the type of the iterators of
  interface \<^verbatim>\<open>tsdb.MetricIterator\<close>.
\<close>

datatype io_event = IndexSet_MetricIterator_called

record 'm SeriesCursorRequest =
  Metrics :: "'m option"

record 'm IndexSet =
  IndexSet_MetricIterator :: "error + 'm option"

record SeriesCursorRow =
  row_Name :: bytes
  row_Tags :: "(bytes \<times> bytes) list"

record 'm seriesCursor =
  cur_indexSet :: "'m IndexSet"
  cur_mitr :: "'m option"
  cur_keys :: "bytes list"
  cur_ofs :: int
  cur_row :: SeriesCursorRow
  cur_cond :: "Expr option"

text \<open>The function passed to \<^verbatim>\<open>WalkFunc\<close>: it assigns the captured result \<^verbatim>\<open>err\<close>.\<close>

definition checkOperator :: "Expr \<Rightarrow> error option \<Rightarrow> error option" where
  "checkOperator node err =
     (case node of
        BinaryExpr tok lhs rhs \<Rightarrow>
          (case tok of
             EQ \<Rightarrow> err | NEQ \<Rightarrow> err | EQREGEX \<Rightarrow> err | NEQREGEX \<Rightarrow> err | OR \<Rightarrow> err | AND \<Rightarrow> err
           | _ \<Rightarrow> Some InvalidTagComparisonOperator)
      | _ \<Rightarrow> err)"

definition newSeriesCursor ::
  "'m SeriesCursorRequest \<Rightarrow> 'm IndexSet \<Rightarrow> Expr option \<Rightarrow> io_event list
     \<Rightarrow> (error + 'm seriesCursor) \<times> io_event list" where
  "newSeriesCursor req indexSet cnd io =
     (case WalkFunc cnd checkOperator None of
        Some err \<Rightarrow> (Inl err, io)
      | None \<Rightarrow>
          (case Metrics req of
             Some m \<Rightarrow>
               (Inr \<lparr>cur_indexSet = indexSet, cur_mitr = Some m, cur_keys = [], cur_ofs = 0,
                     cur_row = \<lparr>row_Name = None, row_Tags = []\<rparr>, cur_cond = cnd\<rparr>, io)
           | None \<Rightarrow>
               (case IndexSet_MetricIterator indexSet of
                  Inl err \<Rightarrow> (Inl err, io @ [IndexSet_MetricIterator_called])
                | Inr m \<Rightarrow>
                    (Inr \<lparr>cur_indexSet = indexSet, cur_mitr = m, cur_keys = [], cur_ofs = 0,
                          cur_row = \<lparr>row_Name = None, row_Tags = []\<rparr>, cur_cond = cnd\<rparr>,
                     io @ [IndexSet_MetricIterator_called]))))"

section \<open>Notions used in the statements and proofs\<close>

subsection \<open>Merge iterators\<close>

text \<open>
  All the elements the slots have still to return, in slot order.
\<close>

definition remaining :: "('e option \<times> 'e list) list \<Rightarrow> 'e list" where
  "remaining ss = concat (map rest ss)"

text \<open>
  The elements whose key has the content \<open>c\<close>; and the iterators all of whose
  slots are sorted and hold no key that is the nil slice.
\<close>

definition has_content :: "('e \<Rightarrow> bytes) \<Rightarrow> string \<Rightarrow> 'e \<Rightarrow> bool" where
  "has_content key c e = (content (key e) = c)"

definition sources_ok :: "('e \<Rightarrow> bytes) \<Rightarrow> 'e mergeIterator \<Rightarrow> bool" where
  "sources_ok key itr =
     (slots_ascending key itr \<and> (\<forall>e \<in> set (remaining (mrg_slots itr)). key e \<noteq> None))"

text \<open>
  The relation between the values of the local \<^verbatim>\<open>name\<close> in two consecutive calls
  of \<open>Next\<close> (see the proof of \<open>merge_Next_increasing\<close>): \<open>c\<close> is the content of the
  name the first call ends with, \<open>r1\<close> and \<open>r2\<close> are the values of \<^verbatim>\<open>name\<close> in the
  first and in the second call after the same number of slots.
\<close>

definition ahead :: "string \<Rightarrow> bytes \<Rightarrow> bool" where
  "ahead c r = (r = None \<or> c < content r)"

definition J :: "string \<Rightarrow> bytes \<Rightarrow> bytes \<Rightarrow> bool" where
  "J c r1 r2 =
     (if c = [] then ahead c r2
      else (r1 = r2 \<and> (r2 = None \<or> content r2 \<noteq> c)) \<or> (content r1 = c \<and> ahead c r2))"

subsection \<open>Series of a tag value\<close>

text \<open>
  What a file that can be read contributes to \<^verbatim>\<open>TagValueSeriesIDIterator\<close>: its
  series for the tag value and its tombstones, the empty set for nil. \<open>resolved\<close>
  is the set of series of a list of files, newest first, after the tombstones of
  each file have been applied to the series of that file and of the older ones.
\<close>

definition readable :: "bytes \<Rightarrow> bytes \<Rightarrow> bytes \<Rightarrow> File \<Rightarrow> bool" where
  "readable n k v f =
     ((\<exists>s. File.TagValueSeriesIDSet f n k v = Inr s) \<and> (\<exists>t. File.TombstoneSeriesIDSet f = Inr t))"

definition seriesOf :: "bytes \<Rightarrow> bytes \<Rightarrow> bytes \<Rightarrow> File \<Rightarrow> SeriesIDSet" where
  "seriesOf n k v f =
     (case File.TagValueSeriesIDSet f n k v of Inr (Some s) \<Rightarrow> s | _ \<Rightarrow> {||})"

definition tombstonesOf :: "File \<Rightarrow> SeriesIDSet" where
  "tombstonesOf f = (case File.TombstoneSeriesIDSet f of Inr (Some t) \<Rightarrow> t | _ \<Rightarrow> {||})"

fun resolved :: "bytes \<Rightarrow> bytes \<Rightarrow> bytes \<Rightarrow> File list \<Rightarrow> SeriesIDSet" where
  "resolved n k v [] = {||}"
| "resolved n k v (f # older) = (resolved n k v older |\<union>| seriesOf n k v f) |-| tombstonesOf f"

subsection \<open>Predicate trees\<close>

text \<open>
  Somewhere in the tree there is a binary expression whose operator is none of
  the six operators the series cursor allows.
\<close>

definition allowedOperator :: "Token \<Rightarrow> bool" where
  "allowedOperator tok =
     (tok = EQ \<or> tok = NEQ \<or> tok = EQREGEX \<or> tok = NEQREGEX \<or> tok = AND \<or> tok = OR)"

fun containsInvalidOperator :: "Expr \<Rightarrow> bool" where
  "containsInvalidOperator (BinaryExpr tok lhs rhs) =
     (\<not> allowedOperator tok \<or> containsInvalidOperator lhs \<or> containsInvalidOperator rhs)"
| "containsInvalidOperator (ParenExpr e) = containsInvalidOperator e"
| "containsInvalidOperator e = False"



subsection \<open>Example segments\<close>

text \<open>A segment at address \<open>a\<close> that holds nothing, for running the model.\<close>

definition emptyFile :: "nat \<Rightarrow> File" where
  "emptyFile a =
     \<lparr>ptr = a, Metric = (\<lambda>n. None), MetricIterator = None, TagKeyIterator = (\<lambda>n. None),
      TagValueSeriesIDSet = (\<lambda>n k v. Inr None), TombstoneSeriesIDSet = Inr None\<rparr>"

lemma emptyFile_eq [simp]: "emptyFile a = emptyFile b \<longleftrightarrow> a = b"
  by (auto simp: emptyFile_def)

text \<open>Metric elements: \<open>a\<close>, \<open>b\<close>, \<open>c\<close> live and \<open>b\<close> tombstoned.\<close>

definition m_a :: MetricElem where
  "m_a = \<lparr>Name = Some ''a'', Deleted = False\<rparr>"

definition m_b :: MetricElem where
  "m_b = \<lparr>Name = Some ''b'', Deleted = False\<rparr>"

definition m_bd :: MetricElem where
  "m_bd = \<lparr>Name = Some ''b'', Deleted = True\<rparr>"

definition m_c :: MetricElem where
  "m_c = \<lparr>Name = Some ''c'', Deleted = False\<rparr>"

text \<open>A segment at address \<open>a\<close> whose metrics are \<open>ms\<close>.\<close>

definition metricFile :: "nat \<Rightarrow> MetricElem list \<Rightarrow> File" where
  "metricFile a ms =
     (emptyFile a)\<lparr>Metric := (\<lambda>n. find (\<lambda>e. bytes_Equal (MetricElem.Name e) n) ms),
                   MetricIterator := (if ms = [] then None else Some ms)\<rparr>"

text \<open>
  A segment at address \<open>a\<close> whose series set for metric \<open>cpu\<close>, tag key \<open>host\<close> and tag
  value \<open>a\<close> is \<open>s\<close> and whose tombstone set is \<open>t\<close>.
\<close>

definition seriesFile :: "nat \<Rightarrow> SeriesIDSet option \<Rightarrow> SeriesIDSet option \<Rightarrow> File" where
  "seriesFile a s t =
     (emptyFile a)\<lparr>TagValueSeriesIDSet :=
                     (\<lambda>n k v. if n = Some ''cpu'' \<and> k = Some ''host'' \<and> v = Some ''a''
                               then Inr s else Inr None),
                   TombstoneSeriesIDSet := Inr t\<rparr>"

text \<open>A segment at address \<open>a\<close> whose tag keys, for every metric, are \<open>ks\<close>.\<close>

definition tagKeyFile :: "nat \<Rightarrow> TagKeyElem list \<Rightarrow> File" where
  "tagKeyFile a ks =
     (emptyFile a)\<lparr>TagKeyIterator := (\<lambda>n. if ks = [] then None else Some ks)\<rparr>"

text \<open>Tag values and tag keys; the key \<open>host\<close> of the second file is tombstoned.\<close>

definition v_a :: TagValueElem where
  "v_a = \<lparr>Value = Some ''a'', Deleted = False\<rparr>"

definition v_b :: TagValueElem where
  "v_b = \<lparr>Value = Some ''b'', Deleted = False\<rparr>"

definition v_c :: TagValueElem where
  "v_c = \<lparr>Value = Some ''c'', Deleted = False\<rparr>"

definition k_host1 :: TagKeyElem where
  "k_host1 = \<lparr>Key = Some ''host'', Deleted = False, TagValueIterator = [v_a]\<rparr>"

definition k_host2 :: TagKeyElem where
  "k_host2 = \<lparr>Key = Some ''host'', Deleted = True, TagValueIterator = [v_b]\<rparr>"

definition k_host3 :: TagKeyElem where
  "k_host3 = \<lparr>Key = Some ''host'', Deleted = False, TagValueIterator = [v_c]\<rparr>"


section \<open>Properties of MustReplace\<close>

lemma findFirstOld_Inr:
  "findFirstOld fls x i = Inr k \<Longrightarrow> i \<le> length fls \<Longrightarrow>
     i \<le> k \<and> (\<forall>j. i \<le> j \<and> j < k \<longrightarrow> fls ! j \<noteq> x) \<and>
     (k < length fls \<and> fls ! k = x \<or> k = i \<and> i = length fls)"
proof (induction fls x i rule: findFirstOld.induct)
  case (1 fls old0 i)
  note unf = findFirstOld.simps [of fls old0 i]
  show ?case
  proof (cases "i < length fls")
    case False
    with "1.prems" show ?thesis unfolding unf by auto
  next
    case inb: True
    show ?thesis
    proof (cases "fls ! i = old0")
      case True
      with inb "1.prems" show ?thesis unfolding unf by auto
    next
      case neq: False
      show ?thesis
      proof (cases "i = length fls - 1")
        case True
        with inb neq "1.prems" show ?thesis unfolding unf by simp
      next
        case False
        with inb neq "1.prems" have rec: "findFirstOld fls old0 (i + 1) = Inr k"
          unfolding unf by simp
        from inb have "i + 1 \<le> length fls" by simp
        from "1.IH" [OF inb neq False rec this]
        have ih: "i + 1 \<le> k" "\<forall>j. i + 1 \<le> j \<and> j < k \<longrightarrow> fls ! j \<noteq> old0"
          "k < length fls \<and> fls ! k = old0 \<or> k = i + 1 \<and> i + 1 = length fls"
          by simp_all
        have "\<forall>j. i \<le> j \<and> j < k \<longrightarrow> fls ! j \<noteq> old0"
        proof (intro allI impI)
          fix j assume j: "i \<le> j \<and> j < k"
          show "fls ! j \<noteq> old0"
          proof (cases "j = i")
            case True
            with neq show ?thesis by simp
          next
            case False
            with j have "i + 1 \<le> j \<and> j < k" by simp
            with ih(2) show ?thesis by blast
          qed
        qed
        moreover from ih(3) inb False have "k < length fls \<and> fls ! k = old0"
          by auto
        ultimately show ?thesis using ih(1) by simp
      qed
    qed
  qed
qed

lemma findFirstOld_first:
  "i \<le> k \<Longrightarrow> k < length fls \<Longrightarrow> fls ! k = x \<Longrightarrow>
     (\<forall>j. i \<le> j \<and> j < k \<longrightarrow> fls ! j \<noteq> x) \<Longrightarrow> findFirstOld fls x i = Inr k"
proof (induction fls x i rule: findFirstOld.induct)
  case (1 fls old0 i)
  show ?case
  proof (cases "i = k")
    case True
    with "1.prems" show ?thesis unfolding findFirstOld.simps [of fls old0 i] by simp
  next
    case False
    with "1.prems" have lt: "i < k" by simp
    with "1.prems" have a: "i < length fls" "fls ! i \<noteq> old0" "i \<noteq> length fls - 1"
      by auto
    have "findFirstOld fls old0 (i + 1) = Inr k"
      using "1.IH" [OF a] lt "1.prems" by simp
    with a show ?thesis unfolding findFirstOld.simps [of fls old0 i] by simp
  qed
qed

lemma checkContiguous_Inr:
  "checkContiguous fls olds i j = Inr u \<longleftrightarrow>
     (\<forall>j'. j \<le> j' \<and> j' < length olds \<longrightarrow> i + j' < length fls \<and> fls ! (i + j') = olds ! j')"
proof (induction fls olds i j rule: checkContiguous.induct)
  case (1 fls olds i j)
  note unf = checkContiguous.simps [of fls olds i j]
  show ?case
  proof (cases "j < length olds")
    case False
    then show ?thesis unfolding unf by auto
  next
    case inb: True
    show ?thesis
    proof (cases "i + j < length fls")
      case False
      with inb show ?thesis unfolding unf by auto
    next
      case inf: True
      show ?thesis
      proof (cases "fls ! (i + j) \<noteq> olds ! j")
        case True
        with inb inf show ?thesis unfolding unf by auto
      next
        case False
        have "checkContiguous fls olds i j = checkContiguous fls olds i (j + 1)"
          using inb inf False unfolding unf by simp
        also have "\<dots> = Inr u \<longleftrightarrow>
          (\<forall>j'. j + 1 \<le> j' \<and> j' < length olds \<longrightarrow> i + j' < length fls \<and> fls ! (i + j') = olds ! j')"
          using "1.IH" [OF inb inf False] .
        also have "\<dots> \<longleftrightarrow>
          (\<forall>j'. j \<le> j' \<and> j' < length olds \<longrightarrow> i + j' < length fls \<and> fls ! (i + j') = olds ! j')"
        proof
          assume r: "\<forall>j'. j + 1 \<le> j' \<and> j' < length olds \<longrightarrow> i + j' < length fls \<and> fls ! (i + j') = olds ! j'"
          show "\<forall>j'. j \<le> j' \<and> j' < length olds \<longrightarrow> i + j' < length fls \<and> fls ! (i + j') = olds ! j'"
          proof (intro allI impI)
            fix j' assume h: "j \<le> j' \<and> j' < length olds"
            show "i + j' < length fls \<and> fls ! (i + j') = olds ! j'"
            proof (cases "j' = j")
              case True
              with inf False show ?thesis by simp
            next
              case False
              with h have "j + 1 \<le> j' \<and> j' < length olds" by simp
              with r show ?thesis by blast
            qed
          qed
        next
          assume "\<forall>j'. j \<le> j' \<and> j' < length olds \<longrightarrow> i + j' < length fls \<and> fls ! (i + j') = olds ! j'"
          then show "\<forall>j'. j + 1 \<le> j' \<and> j' < length olds \<longrightarrow> i + j' < length fls \<and> fls ! (i + j') = olds ! j'"
            by simp
        qed
        finally show ?thesis .
      qed
    qed
  qed
qed

lemma run_at:
  assumes "\<forall>j < length olds. i + j < length fls \<and> fls ! (i + j) = olds ! j"
  shows "take (length olds) (drop i fls) = olds"
proof (rule nth_equalityI)
  show "length (take (length olds) (drop i fls)) = length olds"
  proof (cases "olds = []")
    case True
    then show ?thesis by simp
  next
    case False
    then have "length olds - 1 < length olds" by simp
    with assms have "i + (length olds - 1) < length fls" by blast
    then show ?thesis by simp
  qed
next
  fix j assume "j < length (take (length olds) (drop i fls))"
  then have j: "j < length olds" by simp
  with assms have "i + j < length fls \<and> fls ! (i + j) = olds ! j" by blast
  with j show "take (length olds) (drop i fls) ! j = olds ! j" by simp
qed

lemma MustReplace_Inr_run:
  assumes "MustReplace fs oldFiles newFile = Inr fs'"
  shows "oldFiles \<noteq> [] \<and>
    (\<exists>i. i + length oldFiles \<le> length (files fs) \<and>
         take (length oldFiles) (drop i (files fs)) = oldFiles \<and>
         files fs ! i = oldFiles ! 0 \<and> i < length (files fs))"
proof -
  from assms have ne: "oldFiles \<noteq> []"
    by (auto simp: MustReplace_def split: if_splits)
  from assms ne obtain i where i: "findFirstOld (files fs) (oldFiles ! 0) 0 = Inr i"
    and c: "checkContiguous (files fs) oldFiles i 0 = Inr ()"
    by (auto simp: MustReplace_def split: sum.splits)
  from c have run: "\<forall>j < length oldFiles. i + j < length (files fs) \<and> files fs ! (i + j) = oldFiles ! j"
    by (simp add: checkContiguous_Inr)
  from ne have "0 < length oldFiles" "length oldFiles - 1 < length oldFiles" by simp_all
  with run have "i + 0 < length (files fs) \<and> files fs ! (i + 0) = oldFiles ! 0"
    and "i + (length oldFiles - 1) < length (files fs)" by blast+
  with ne have "i + length oldFiles \<le> length (files fs)" "files fs ! i = oldFiles ! 0"
    "i < length (files fs)" by simp_all
  with ne run_at [OF run] show ?thesis by blast
qed

lemma MustReplace_at:
  assumes "oldFiles \<noteq> []"
    and "findFirstOld (files fs) (oldFiles ! 0) 0 = Inr i"
    and "\<forall>j < length oldFiles. i + j < length (files fs) \<and> files fs ! (i + j) = oldFiles ! j"
  shows "MustReplace fs oldFiles newFile =
    Inr \<lparr>levels = levels fs, sfile = None,
         files = take i (files fs) @ [newFile] @ drop (i + length oldFiles) (files fs),
         manifestSize = 0\<rparr>"
proof -
  from assms(3) have "checkContiguous (files fs) oldFiles i 0 = Inr ()"
    by (simp add: checkContiguous_Inr)
  with assms(1,2) show ?thesis by (simp add: MustReplace_def)
qed

lemma run_nth:
  assumes "take (length olds) (drop i fls) = olds" "i + length olds \<le> length fls"
  shows "\<forall>j < length olds. i + j < length fls \<and> fls ! (i + j) = olds ! j"
proof (intro allI impI)
  fix j assume j: "j < length olds"
  with assms(2) have lt: "i + j < length fls" by simp
  from j have "olds ! j = take (length olds) (drop i fls) ! j" using assms(1) by simp
  also from j lt have "\<dots> = fls ! (i + j)" by simp
  finally show "i + j < length fls \<and> fls ! (i + j) = olds ! j" using lt by simp
qed

section \<open>Properties of the merge iterators\<close>

subsection \<open>Two consecutive results of Next\<close>

text \<open>
  The local \<^verbatim>\<open>name\<close> of \<open>Next\<close> is nil both before any name is taken and after the
  key of a buffered element that is the nil slice has been taken, so \<open>Next\<close> does
  not always pick the least buffered key. The keys of its results increase all
  the same. To see it, run the first loop of two consecutive calls side by side
  over the slots: \<open>c\<close> is the content of the name the first call returns, \<open>r1\<close> and
  \<open>r2\<close> are the values of \<^verbatim>\<open>name\<close> in the first and in the second call after the
  same number of slots. The relation \<open>J\<close> holds at every slot.
\<close>

lemma Nil_less_iff: "([]::string) < xs \<longleftrightarrow> xs \<noteq> []"
  by (cases xs) simp_all

lemma lower_cases:
  "lower r k = (if r = None then k else if content k < content r then k else r)"
  by (auto simp: lower_def bytes_Compare_def)

lemma J_same:
  assumes "J c r1 r2" "content k \<noteq> c"
  shows "J c (lower r1 k) (lower r2 k)"
  using assms
  by (auto simp: J_def ahead_def lower_cases Nil_less_iff content_def split: if_splits option.splits)

lemma J_drop:
  assumes "J c r1 r2" "content k = c"
  shows "J c (lower r1 k) r2"
  using assms
  by (auto simp: J_def ahead_def lower_cases Nil_less_iff content_def split: if_splits option.splits)

lemma J_new:
  assumes "J c r1 r2" "content k = c" "c < content k'"
  shows "J c (lower r1 k) (lower r2 k')"
  using assms
  by (auto simp: J_def ahead_def lower_cases Nil_less_iff content_def split: if_splits option.splits)

lemma J_final:
  assumes "J c n1 n2" "content n1 = c" "n1 \<noteq> None" "n2 \<noteq> None"
  shows "c < content n2"
  using assms by (auto simp: J_def ahead_def split: if_splits)

lemma refill_idem [simp]: "refill (refill s) = refill s"
  by (cases s rule: refill.cases) simp_all

lemma refill_comp [simp]: "refill \<circ> refill = refill"
  by (rule ext) simp

lemma rest_refill [simp]: "rest (refill s) = rest s"
  by (cases s rule: refill.cases) simp_all

lemma ascending_tl: "ascending key xs \<Longrightarrow> ascending key (tl xs)"
  by (cases xs) (simp_all add: ascending_def)

lemma rest_consume: "rest (consume key n s) = rest s \<or> rest (consume key n s) = tl (rest s)"
  by (cases s rule: rest.cases) simp_all

lemma ascending_consume: "ascending key (rest s) \<Longrightarrow> ascending key (rest (consume key n s))"
  using rest_consume [of key n s] ascending_tl [of key "rest s"] by auto

lemma heads_Nil [simp]: "heads key [] = []"
  by (simp add: heads_def)

lemma heads_Cons_None [simp]: "heads key ((None, it) # ss) = heads key ss"
  by (simp add: heads_def)

lemma heads_Cons_Some [simp]: "heads key ((Some b, it) # ss) = key b # heads key ss"
  by (simp add: heads_def)

lemma lockstep:
  assumes "J c r1 r2" and "\<forall>s \<in> set ss. refill s = s \<and> ascending key (rest s)"
    and "content n = c"
  shows "J c (foldl lower r1 (heads key ss))
           (foldl lower r2 (heads key (map (\<lambda>s. refill (consume key n s)) ss)))"
  using assms(1,2)
proof (induction ss arbitrary: r1 r2)
  case Nil
  then show ?case by simp
next
  case (Cons s ss)
  from Cons.prems have s: "refill s = s" "ascending key (rest s)"
    and ss: "\<forall>s \<in> set ss. refill s = s \<and> ascending key (rest s)" by simp_all
  show ?case
  proof (cases s rule: rest.cases)
    case (1 it)
    with s(1) have "it = []" by (cases it) simp_all
    with 1 show ?thesis using Cons.IH [OF Cons.prems(1) ss] by simp
  next
    case (2 x it)
    show ?thesis
    proof (cases "bytes_Equal (key x) n")
      case False
      then have "content (key x) \<noteq> c" using assms(3) by (simp add: bytes_Equal_def)
      from J_same [OF Cons.prems(1) this] have "J c (lower r1 (key x)) (lower r2 (key x))" .
      from Cons.IH [OF this ss] 2 False show ?thesis by simp
    next
      case True
      then have eq: "content (key x) = c" using assms(3) by (simp add: bytes_Equal_def)
      show ?thesis
      proof (cases it)
        case Nil
        from J_drop [OF Cons.prems(1) eq] have "J c (lower r1 (key x)) r2" .
        from Cons.IH [OF this ss] 2 True Nil show ?thesis by simp
      next
        case (Cons y it')
        with s(2) 2 have "content (key x) < content (key y)" by (simp add: ascending_def)
        with eq have "c < content (key y)" by simp
        from J_new [OF Cons.prems(1) eq this]
        have "J c (lower r1 (key x)) (lower r2 (key y))" .
        from Cons.IH [OF this ss] 2 True Cons show ?thesis by simp
      qed
    qed
  qed
qed

lemma mergeElem_key_filter:
  assumes "g = filter (\<lambda>b. bytes_Equal (key b) n) bs" "g \<noteq> []"
  shows "content (mergeElem_key key g) = content n"
proof -
  from assms(2) have "g ! 0 \<in> set g" by simp
  with assms(1) have "bytes_Equal (key (g ! 0)) n" by auto
  with assms(2) show ?thesis by (simp add: mergeElem_key_def bytes_Equal_def)
qed

lemma merge_Next_ascending:
  assumes "slots_ascending key itr" "merge_Next key itr = (r, itr')"
  shows "slots_ascending key itr'"
  using assms
  by (auto simp: slots_ascending_def merge_Next_eq Let_def ascending_consume split: if_splits)

lemma merge_Next_increasing:
  assumes inv: "slots_ascending key itr"
    and n1: "merge_Next key itr = (Some g, itr')"
    and n2: "merge_Next key itr' = (Some g', itr'')"
  shows "content (mergeElem_key key g) < content (mergeElem_key key g')"
proof -
  let ?ss = "map refill (mrg_slots itr)"
  let ?n1 = "foldl lower None (heads key ?ss)"
  from n1 have nn1: "?n1 \<noteq> None"
    by (auto simp: merge_Next_eq Let_def split: if_splits)
  with n1 have g: "g = filter (\<lambda>b. bytes_Equal (key b) ?n1) (buffered ?ss)"
    and i: "mrg_slots itr' = map (consume key ?n1) ?ss"
    by (auto simp: merge_Next_eq Let_def)
  let ?ss2 = "map refill (mrg_slots itr')"
  let ?n2 = "foldl lower None (heads key ?ss2)"
  from n2 have nn2: "?n2 \<noteq> None"
    by (auto simp: merge_Next_eq Let_def split: if_splits)
  with n2 have g': "g' = filter (\<lambda>b. bytes_Equal (key b) ?n2) (buffered ?ss2)"
    by (auto simp: merge_Next_eq Let_def)
  from merge_Next_Some [OF n1] merge_Next_Some [OF n2] have ne: "g \<noteq> []" "g' \<noteq> []" by simp_all
  have k1: "content (mergeElem_key key g) = content ?n1"
    using mergeElem_key_filter [OF g ne(1)] .
  have k2: "content (mergeElem_key key g') = content ?n2"
    using mergeElem_key_filter [OF g' ne(2)] .
  have ss2: "?ss2 = map (\<lambda>s. refill (consume key ?n1 s)) ?ss" using i by simp
  have J0: "J (content ?n1) None None" by (simp add: J_def ahead_def)
  have pre: "\<forall>s \<in> set ?ss. refill s = s \<and> ascending key (rest s)"
    using inv by (auto simp: slots_ascending_def)
  from lockstep [OF J0 pre refl] have "J (content ?n1) ?n1 ?n2" unfolding ss2 .
  from J_final [OF this refl nn1 nn2] k1 k2 show ?thesis by simp
qed

subsection \<open>The sequence of results\<close>

lemma drain_None: "merge_Next key itr = (None, itr') \<Longrightarrow> drain key itr = []"
  by (subst drain.simps) simp

lemma drain_Some: "merge_Next key itr = (Some g, itr') \<Longrightarrow> drain key itr = g # drain key itr'"
  by (subst drain.simps) simp

lemma drain_successively:
  "slots_ascending key itr \<Longrightarrow>
     successively (\<lambda>g h. content (mergeElem_key key g) < content (mergeElem_key key h))
       (drain key itr)"
proof (induction key itr rule: drain.induct)
  case (1 key itr)
  obtain r itr' where n: "merge_Next key itr = (r, itr')" by fastforce
  show ?case
  proof (cases r)
    case None
    with n show ?thesis by (simp add: drain_None)
  next
    case (Some g)
    with n have n1: "merge_Next key itr = (Some g, itr')" by simp
    from merge_Next_ascending [OF "1.prems" n1] have inv': "slots_ascending key itr'" .
    from "1.IH" [OF n1 [symmetric] refl inv']
    have ih: "successively (\<lambda>g h. content (mergeElem_key key g) < content (mergeElem_key key h))
       (drain key itr')" .
    obtain r' itr'' where n': "merge_Next key itr' = (r', itr'')" by fastforce
    show ?thesis
    proof (cases r')
      case None
      with n' have "drain key itr' = []" by (simp add: drain_None)
      with n1 show ?thesis by (simp add: drain_Some)
    next
      case (Some g')
      with n' have n2: "merge_Next key itr' = (Some g', itr'')" by simp
      from merge_Next_increasing [OF "1.prems" n1 n2]
      have "content (mergeElem_key key g) < content (mergeElem_key key g')" .
      moreover from n2 have "hd (drain key itr') = g'" "drain key itr' \<noteq> []"
        by (simp_all add: drain_Some)
      ultimately show ?thesis using ih n1 by (simp add: drain_Some successively_Cons)
    qed
  qed
qed

lemma drain_sorted:
  assumes "slots_ascending key itr"
  shows "sorted_wrt (\<lambda>g h. content (mergeElem_key key g) < content (mergeElem_key key h))
       (drain key itr)"
proof -
  have "transp (\<lambda>g h. content (mergeElem_key key g) < content (mergeElem_key key h))"
    by (rule transpI) (rule less_trans)
  from successively_conv_sorted_wrt [OF this] drain_successively [OF assms]
  show ?thesis by blast
qed

lemma MergeIterators_ascending:
  assumes "\<forall>it \<in> set itrs. ascending key it" and "MergeIterators itrs = Some itr"
  shows "slots_ascending key itr"
  using assms by (auto simp: MergeIterators_def slots_ascending_def split: if_splits)

lemma merge_Next_group:
  assumes "merge_Next key itr = (Some g, itr')"
  shows "g \<noteq> [] \<and>
    g = filter (\<lambda>b. bytes_Equal (key b) (mergeElem_key key g)) (buffered (map refill (mrg_slots itr)))"
proof -
  let ?ss = "map refill (mrg_slots itr)"
  let ?n1 = "foldl lower None (heads key ?ss)"
  from assms have nn1: "?n1 \<noteq> None"
    by (auto simp: merge_Next_eq Let_def split: if_splits)
  with assms have g: "g = filter (\<lambda>b. bytes_Equal (key b) ?n1) (buffered ?ss)"
    by (auto simp: merge_Next_eq Let_def)
  from merge_Next_Some [OF assms] have ne: "g \<noteq> []" by simp
  from mergeElem_key_filter [OF g ne]
  have "(\<lambda>b. bytes_Equal (key b) (mergeElem_key key g)) = (\<lambda>b. bytes_Equal (key b) ?n1)"
    by (simp add: bytes_Equal_def)
  with g ne show ?thesis by simp
qed

subsection \<open>The adapters over a merge iterator\<close>

lemma merge_Next_None_again:
  assumes "merge_Next key itr = (None, itr')"
  shows "merge_Next key itr' = (None, itr')"
proof -
  let ?ss = "map refill (mrg_slots itr)"
  from assms have a: "foldl lower None (heads key ?ss) = None" "itr' = itr\<lparr>mrg_slots := ?ss\<rparr>"
    by (auto simp: merge_Next_eq Let_def split: if_splits)
  have "map refill (mrg_slots itr') = ?ss" using a(2) by simp
  with a show ?thesis by (simp add: merge_Next_eq Let_def)
qed

lemma adapter_merge:
  "\<exists>itr'. tsdbIteratorAdapter_Next (merge_Next key) del nm itr
       = Some (case dropWhile del (drain key itr) of [] \<Rightarrow> None | g # gs \<Rightarrow> nm g, itr') \<and>
     drain key itr' = drop 1 (dropWhile del (drain key itr))"
proof (induction key itr rule: drain.induct)
  case (1 key itr)
  obtain r itr1 where n: "merge_Next key itr = (r, itr1)" by fastforce
  show ?case
  proof (cases r)
    case None
    with n have e: "merge_Next key itr = (None, itr1)" by simp
    from merge_Next_None_again [OF e] have "drain key itr1 = []" by (rule drain_None)
    moreover from e have "drain key itr = []" by (rule drain_None)
    moreover from e have "tsdbIteratorAdapter_Next (merge_Next key) del nm itr = Some (None, itr1)"
      by (subst tsdbIteratorAdapter_Next.simps) simp
    ultimately show ?thesis by simp
  next
    case (Some g)
    with n have e: "merge_Next key itr = (Some g, itr1)" by simp
    then have d: "drain key itr = g # drain key itr1" by (rule drain_Some)
    show ?thesis
    proof (cases "del g")
      case True
      with e have "tsdbIteratorAdapter_Next (merge_Next key) del nm itr
        = tsdbIteratorAdapter_Next (merge_Next key) del nm itr1"
        by (subst tsdbIteratorAdapter_Next.simps) simp
      with "1.IH" [OF e [symmetric] refl] d True show ?thesis by simp
    next
      case False
      with e have "tsdbIteratorAdapter_Next (merge_Next key) del nm itr = Some (nm g, itr1)"
        by (subst tsdbIteratorAdapter_Next.simps) simp
      with d False show ?thesis by simp
    qed
  qed
qed

subsection \<open>A run of the merge iterator\<close>

text \<open>
  The newer file holds \<open>b\<close> (tombstoned) and \<open>c\<close>, the older file \<open>a\<close> and \<open>b\<close>. The
  four calls of \<open>Next\<close> return the groups \<open>[a]\<close>, \<open>[b (tombstoned), b]\<close>, \<open>[c]\<close> and nil.
\<close>

lemmas eval_merge = merge_Next_def lower_def bytes_Compare_def bytes_Equal_def content_def
  m_a_def m_b_def m_bd_def m_c_def

lemma run_Next1:
  "merge_Next MetricElem.Name \<lparr>mrg_e = [], mrg_slots = [(None, [m_bd, m_c]), (None, [m_a, m_b])]\<rparr>
   = (Some [m_a], \<lparr>mrg_e = [m_a], mrg_slots = [(Some m_bd, [m_c]), (None, [m_b])]\<rparr>)"
  by (simp add: eval_merge)

lemma run_Next2:
  "merge_Next MetricElem.Name \<lparr>mrg_e = [m_a], mrg_slots = [(Some m_bd, [m_c]), (None, [m_b])]\<rparr>
   = (Some [m_bd, m_b], \<lparr>mrg_e = [m_bd, m_b], mrg_slots = [(None, [m_c]), (None, [])]\<rparr>)"
  by (simp add: eval_merge)

lemma run_Next3:
  "merge_Next MetricElem.Name \<lparr>mrg_e = [m_bd, m_b], mrg_slots = [(None, [m_c]), (None, [])]\<rparr>
   = (Some [m_c], \<lparr>mrg_e = [m_c], mrg_slots = [(None, []), (None, [])]\<rparr>)"
  by (simp add: eval_merge)

lemma run_Next4:
  "merge_Next MetricElem.Name \<lparr>mrg_e = [m_c], mrg_slots = [(None, []), (None, [])]\<rparr>
   = (None, \<lparr>mrg_e = [m_c], mrg_slots = [(None, []), (None, [])]\<rparr>)"
  by (simp add: eval_merge)

lemma run_drain2:
  "drain MetricElem.Name \<lparr>mrg_e = [m_a], mrg_slots = [(Some m_bd, [m_c]), (None, [m_b])]\<rparr>
   = [[m_bd, m_b], [m_c]]"
  by (simp add: drain_Some [OF run_Next2] drain_Some [OF run_Next3] drain_None [OF run_Next4])

lemma run_drain1:
  "drain MetricElem.Name \<lparr>mrg_e = [], mrg_slots = [(None, [m_bd, m_c]), (None, [m_a, m_b])]\<rparr>
   = [[m_a], [m_bd, m_b], [m_c]]"
  by (simp add: drain_Some [OF run_Next1] run_drain2)

lemma buffered_append: "buffered (xs @ ys) = buffered xs @ buffered ys"
  by (induction xs rule: buffered.induct) simp_all

subsection \<open>Every element is returned when no key is the nil slice\<close>

text \<open>
  \<open>Next\<close> returns nil as soon as the name it holds after the first loop is nil. When
  no key is the nil slice this happens only when no element is buffered, that is,
  when all sources are exhausted; then the groups returned up to the first nil
  hold all the elements of the sources.
\<close>

lemma foldl_lower_Some:
  "r \<noteq> None \<Longrightarrow> \<forall>k \<in> set ks. k \<noteq> None \<Longrightarrow> foldl lower r ks \<noteq> None"
proof (induction ks arbitrary: r)
  case Nil
  then show ?case by simp
next
  case (Cons k ks)
  have "lower r k = r \<or> lower r k = k" by (simp add: lower_def)
  moreover from Cons.prems have "k \<noteq> None" "\<forall>k \<in> set ks. k \<noteq> None" by simp_all
  ultimately have "lower r k \<noteq> None" "\<forall>k \<in> set ks. k \<noteq> None" using Cons.prems(1) by auto
  from Cons.IH [OF this] show ?case by simp
qed

lemma foldl_lower_None:
  assumes "foldl lower None ks = None" "\<forall>k \<in> set ks. k \<noteq> None"
  shows "ks = []"
proof (cases ks)
  case Nil
  then show ?thesis .
next
  case (Cons k ks')
  with assms(2) have k: "k \<noteq> None" "\<forall>k \<in> set ks'. k \<noteq> None" by simp_all
  have "lower None k = k" by (simp add: lower_def)
  with k have "lower None k \<noteq> None" by simp
  from foldl_lower_Some [OF this k(2)] assms(1) Cons show ?thesis by simp
qed

lemma remaining_refill [simp]: "remaining (map refill ss) = remaining ss"
  by (simp add: remaining_def comp_def)

lemma buffered_refill_Nil:
  "buffered (map refill ss) = [] \<Longrightarrow> remaining ss = []"
proof (induction ss)
  case Nil
  then show ?case by (simp add: remaining_def)
next
  case (Cons s ss)
  then show ?case by (cases s rule: refill.cases) (simp_all add: remaining_def)
qed

lemma set_buffered_remaining: "set (buffered ss) \<subseteq> set (remaining ss)"
  by (induction ss rule: buffered.induct) (auto simp: remaining_def)

lemma set_remaining_consume:
  "set (remaining (map (consume key n) ss)) \<union> set (filter (\<lambda>b. bytes_Equal (key b) n) (buffered ss))
     = set (remaining ss)"
  by (induction ss rule: buffered.induct) (auto simp: remaining_def)

lemma merge_Next_None_remaining:
  assumes "merge_Next key itr = (None, itr')"
    and "\<forall>e \<in> set (remaining (mrg_slots itr)). key e \<noteq> None"
  shows "remaining (mrg_slots itr) = []"
proof -
  let ?ss = "map refill (mrg_slots itr)"
  from assms(1) have z: "foldl lower None (heads key ?ss) = None"
    by (auto simp: merge_Next_eq Let_def split: if_splits)
  have "\<forall>k \<in> set (heads key ?ss). k \<noteq> None"
  proof
    fix k assume "k \<in> set (heads key ?ss)"
    then obtain b where b: "b \<in> set (buffered ?ss)" "k = key b" by (auto simp: heads_def)
    from b(1) set_buffered_remaining [of ?ss] have "b \<in> set (remaining (mrg_slots itr))"
      by auto
    with assms(2) b(2) show "k \<noteq> None" by blast
  qed
  from foldl_lower_None [OF z this] have "buffered ?ss = []" by (simp add: heads_def)
  then show ?thesis by (rule buffered_refill_Nil)
qed

lemma merge_Next_Some_remaining:
  assumes "merge_Next key itr = (Some g, itr')"
  shows "set (remaining (mrg_slots itr')) \<union> set g = set (remaining (mrg_slots itr))"
proof -
  let ?ss = "map refill (mrg_slots itr)"
  let ?n = "foldl lower None (heads key ?ss)"
  from assms have nn: "?n \<noteq> None"
    by (auto simp: merge_Next_eq Let_def split: if_splits)
  with assms have g: "g = filter (\<lambda>b. bytes_Equal (key b) ?n) (buffered ?ss)"
    and i: "mrg_slots itr' = map (consume key ?n) ?ss"
    by (auto simp: merge_Next_eq Let_def)
  from set_remaining_consume [of key ?n ?ss] g i show ?thesis by simp
qed

lemma drain_elements:
  "\<forall>e \<in> set (remaining (mrg_slots itr)). key e \<noteq> None \<Longrightarrow>
     set (concat (drain key itr)) = set (remaining (mrg_slots itr))"
proof (induction key itr rule: drain.induct)
  case (1 key itr)
  obtain r itr' where n: "merge_Next key itr = (r, itr')" by fastforce
  show ?case
  proof (cases r)
    case None
    with n have e: "merge_Next key itr = (None, itr')" by simp
    from merge_Next_None_remaining [OF e "1.prems"] drain_None [OF e] show ?thesis by simp
  next
    case (Some g)
    with n have e: "merge_Next key itr = (Some g, itr')" by simp
    from merge_Next_Some_remaining [OF e]
    have u: "set (remaining (mrg_slots itr')) \<union> set g = set (remaining (mrg_slots itr))" .
    with "1.prems" have "\<forall>e \<in> set (remaining (mrg_slots itr')). key e \<noteq> None" by blast
    from "1.IH" [OF e [symmetric] refl this]
    have "set (concat (drain key itr')) = set (remaining (mrg_slots itr'))" .
    with u drain_Some [OF e] show ?thesis by auto
  qed
qed

lemma drain_groups:
  "g \<in> set (drain key itr) \<Longrightarrow>
     g \<noteq> [] \<and> (\<forall>e \<in> set g. content (key e) = content (mergeElem_key key g))"
proof (induction key itr rule: drain.induct)
  case (1 key itr)
  obtain r itr' where n: "merge_Next key itr = (r, itr')" by fastforce
  show ?case
  proof (cases r)
    case None
    with n "1.prems" show ?thesis by (simp add: drain_None)
  next
    case (Some h)
    with n have e: "merge_Next key itr = (Some h, itr')" by simp
    show ?thesis
    proof (cases "g = h")
      case True
      from merge_Next_group [OF e]
      have "h \<noteq> []" "set h \<subseteq> {b. bytes_Equal (key b) (mergeElem_key key h)}"
        by (simp, metis (mono_tags, lifting) filter_is_subset mem_Collect_eq set_filter subsetI)
      with True show ?thesis by (auto simp: bytes_Equal_def)
    next
      case False
      with "1.prems" drain_Some [OF e] have "g \<in> set (drain key itr')" by simp
      from "1.IH" [OF e [symmetric] refl this] show ?thesis .
    qed
  qed
qed



lemma remaining_MergeIterators:
  "MergeIterators itrs = Some itr \<Longrightarrow> remaining (mrg_slots itr) = concat itrs"
  by (auto simp: MergeIterators_def remaining_def comp_def split: if_splits)

subsection \<open>Sorted sources without nil keys: a group holds all elements of its key\<close>

text \<open>
  When the sources are sorted and no key is the nil slice, the name \<open>Next\<close> ends
  its first loop with is the least buffered key, which is the least key still to
  come; the group is made of all the remaining elements of that key, in slot
  order, and exactly these leave the slots.
\<close>

lemma foldl_lower_le:
  "r \<noteq> None \<Longrightarrow> \<forall>k \<in> set ks. k \<noteq> None \<Longrightarrow>
     content (foldl lower r ks) \<le> content r \<and>
     (\<forall>k \<in> set ks. content (foldl lower r ks) \<le> content k)"
proof (induction ks arbitrary: r)
  case Nil
  then show ?case by simp
next
  case (Cons k ks)
  from Cons.prems have k: "k \<noteq> None" "\<forall>k \<in> set ks. k \<noteq> None" by simp_all
  from Cons.prems(1) have l: "lower r k = (if content k < content r then k else r)"
    by (cases r) (simp_all add: lower_cases)
  with k(1) Cons.prems(1) have nn: "lower r k \<noteq> None" by simp
  from l have le: "content (lower r k) \<le> content r" "content (lower r k) \<le> content k"
    by auto
  from Cons.IH [OF nn k(2)] le show ?case by auto
qed

lemma foldl_lower_least:
  assumes "\<forall>k \<in> set ks. k \<noteq> None"
  shows "\<forall>k \<in> set ks. content (foldl lower None ks) \<le> content k"
proof (cases ks)
  case Nil
  then show ?thesis by simp
next
  case (Cons k ks')
  with assms have k: "k \<noteq> None" "\<forall>k \<in> set ks'. k \<noteq> None" by simp_all
  have "lower None k = k" by (simp add: lower_def)
  with foldl_lower_le [OF k] Cons show ?thesis by simp
qed

lemma consume_sorted_slot:
  assumes "refill s = s" "ascending key (rest s)" "content n = c"
    and "\<forall>b \<in> set (buffered [s]). c \<le> content (key b)"
  shows "rest (consume key n s) = filter (\<lambda>e. \<not> has_content key c e) (rest s) \<and>
    filter (has_content key c) (rest s) = filter (\<lambda>b. bytes_Equal (key b) n) (buffered [s])"
proof (cases s rule: rest.cases)
  case (1 it)
  with assms(1) have "it = []" by (cases it) simp_all
  with 1 show ?thesis by simp
next
  case (2 x it)
  with assms(2) have gt: "\<forall>e \<in> set it. content (key x) < content (key e)"
    by (simp add: ascending_def)
  from 2 assms(4) have "c \<le> content (key x)" by simp
  with gt have "\<forall>e \<in> set it. c < content (key e)" by auto
  then have "\<forall>e \<in> set it. \<not> has_content key c e" by (auto simp: has_content_def)
  then have f: "filter (\<lambda>e. \<not> has_content key c e) it = it" "filter (has_content key c) it = []"
    by (simp_all add: filter_empty_conv)
  with 2 assms(3) show ?thesis by (simp add: bytes_Equal_def has_content_def)
qed

lemma consume_sorted_slots:
  assumes "\<forall>s \<in> set ss. refill s = s \<and> ascending key (rest s)" "content n = c"
    and "\<forall>b \<in> set (buffered ss). c \<le> content (key b)"
  shows "remaining (map (consume key n) ss) = filter (\<lambda>e. \<not> has_content key c e) (remaining ss) \<and>
    filter (has_content key c) (remaining ss) = filter (\<lambda>b. bytes_Equal (key b) n) (buffered ss)"
  using assms(1,3)
proof (induction ss)
  case Nil
  then show ?case by (simp add: remaining_def)
next
  case (Cons s ss)
  have b: "buffered (s # ss) = buffered [s] @ buffered ss"
    using buffered_append [of "[s]" ss] by simp
  from Cons.prems have s: "refill s = s" "ascending key (rest s)"
    "\<forall>b \<in> set (buffered [s]). c \<le> content (key b)"
    and ss: "\<forall>s \<in> set ss. refill s = s \<and> ascending key (rest s)"
    "\<forall>b \<in> set (buffered ss). c \<le> content (key b)"
    by (simp_all add: b)
  from consume_sorted_slot [OF s(1,2) assms(2) s(3)] Cons.IH [OF ss]
  show ?case by (simp add: remaining_def b)
qed

lemma merge_Next_full:
  assumes "sources_ok key itr" "merge_Next key itr = (Some g, itr')"
  shows "g = filter (has_content key (content (mergeElem_key key g))) (remaining (mrg_slots itr)) \<and>
    remaining (mrg_slots itr')
      = filter (\<lambda>e. \<not> has_content key (content (mergeElem_key key g)) e) (remaining (mrg_slots itr)) \<and>
    sources_ok key itr'"
proof -
  let ?ss = "map refill (mrg_slots itr)"
  let ?n = "foldl lower None (heads key ?ss)"
  from assms(2) have nn: "?n \<noteq> None"
    by (auto simp: merge_Next_eq Let_def split: if_splits)
  with assms(2) have g: "g = filter (\<lambda>b. bytes_Equal (key b) ?n) (buffered ?ss)"
    and i: "mrg_slots itr' = map (consume key ?n) ?ss"
    by (auto simp: merge_Next_eq Let_def)
  from merge_Next_Some [OF assms(2)] have ne: "g \<noteq> []" by simp
  from mergeElem_key_filter [OF g ne] have c: "content (mergeElem_key key g) = content ?n" .
  have nonnil: "\<forall>k \<in> set (heads key ?ss). k \<noteq> None"
  proof
    fix k assume "k \<in> set (heads key ?ss)"
    then obtain b where b: "b \<in> set (buffered ?ss)" "k = key b" by (auto simp: heads_def)
    from b(1) set_buffered_remaining [of ?ss] have "b \<in> set (remaining (mrg_slots itr))"
      by auto
    with assms(1) b(2) show "k \<noteq> None" by (auto simp: sources_ok_def)
  qed
  from foldl_lower_least [OF nonnil]
  have least: "\<forall>b \<in> set (buffered ?ss). content ?n \<le> content (key b)"
    by (simp add: heads_def)
  have pre: "\<forall>s \<in> set ?ss. refill s = s \<and> ascending key (rest s)"
    using assms(1) by (auto simp: sources_ok_def slots_ascending_def)
  from consume_sorted_slots [OF pre refl least] g i c
  have r: "g = filter (has_content key (content (mergeElem_key key g))) (remaining (mrg_slots itr))"
    "remaining (mrg_slots itr')
      = filter (\<lambda>e. \<not> has_content key (content (mergeElem_key key g)) e) (remaining (mrg_slots itr))"
    by simp_all
  from assms(1) merge_Next_ascending [OF _ assms(2)] r(2) have "sources_ok key itr'"
    by (auto simp: sources_ok_def)
  with r show ?thesis by simp
qed

lemma drain_full:
  "sources_ok key itr \<Longrightarrow> g \<in> set (drain key itr) \<Longrightarrow>
     g = filter (has_content key (content (mergeElem_key key g))) (remaining (mrg_slots itr))"
proof (induction key itr rule: drain.induct)
  case (1 key itr)
  obtain r itr' where n: "merge_Next key itr = (r, itr')" by fastforce
  show ?case
  proof (cases r)
    case None
    with n "1.prems" show ?thesis by (simp add: drain_None)
  next
    case (Some h)
    with n have e: "merge_Next key itr = (Some h, itr')" by simp
    note full = merge_Next_full [OF "1.prems"(1) e]
    show ?thesis
    proof (cases "g = h")
      case True
      with full show ?thesis by simp
    next
      case False
      with "1.prems" drain_Some [OF e] have in': "g \<in> set (drain key itr')" by simp
      from full have ok': "sources_ok key itr'" by simp
      let ?cg = "content (mergeElem_key key g)"
      let ?ch = "content (mergeElem_key key h)"
      from "1.IH" [OF e [symmetric] refl ok' in']
      have ih: "g = filter (has_content key ?cg) (remaining (mrg_slots itr'))" .
      from drain_groups [OF in'] have "g \<noteq> []" by simp
      then obtain x where x: "x \<in> set g" by (cases g) auto
      with ih have "x \<in> set (filter (has_content key ?cg) (remaining (mrg_slots itr')))"
        by simp
      then have "has_content key ?cg x" "x \<in> set (remaining (mrg_slots itr'))"
        by simp_all
      with full have "has_content key ?cg x" "\<not> has_content key ?ch x" by simp_all
      then have neq: "?cg \<noteq> ?ch" by (auto simp: has_content_def)
      from full have "filter (has_content key ?cg) (remaining (mrg_slots itr'))
        = filter (has_content key ?cg)
            (filter (\<lambda>e. \<not> has_content key ?ch e) (remaining (mrg_slots itr)))"
        by simp
      also have "\<dots> = filter (has_content key ?cg) (remaining (mrg_slots itr))"
        unfolding filter_filter using neq by (intro filter_cong refl) (auto simp: has_content_def)
      finally have "filter (has_content key ?cg) (remaining (mrg_slots itr'))
        = filter (has_content key ?cg) (remaining (mrg_slots itr))" .
      with ih show ?thesis by (rule trans)
    qed
  qed
qed

lemma MergeIterators_sources_ok:
  assumes "\<forall>it \<in> set itrs. ascending key it \<and> (\<forall>e \<in> set it. key e \<noteq> None)"
    and "MergeIterators itrs = Some itr"
  shows "sources_ok key itr"
proof -
  from assms have "slots_ascending key itr" by (auto intro: MergeIterators_ascending)
  moreover from assms remaining_MergeIterators [OF assms(2)]
  have "\<forall>e \<in> set (remaining (mrg_slots itr)). key e \<noteq> None" by auto
  ultimately show ?thesis by (simp add: sources_ok_def)
qed

subsection \<open>C4: a missing or non-contiguous run is fatal\<close>

text \<open>
  C4. If \<open>oldFiles\<close> is empty, or its first member is not a file of the set, or its
  members do not stand at consecutive positions of \<open>fs.files\<close> in the same order, then
  \<open>MustReplace\<close> panics: it returns no file set (and has no error result).
\<close>

theorem MustReplace_panics:
  assumes "oldFiles = [] \<or> hd oldFiles \<notin> set (files fs) \<or>
    \<not> (\<exists>i. i + length oldFiles \<le> length (files fs) \<and>
           take (length oldFiles) (drop i (files fs)) = oldFiles)"
  shows "\<exists>p. MustReplace fs oldFiles newFile = Inl p"
proof (cases "MustReplace fs oldFiles newFile")
  case (Inl p)
  then show ?thesis by blast
next
  case (Inr fs')
  from MustReplace_Inr_run [OF Inr] obtain i where ne: "oldFiles \<noteq> []"
    and i: "i + length oldFiles \<le> length (files fs)"
      "take (length oldFiles) (drop i (files fs)) = oldFiles"
      "files fs ! i = oldFiles ! 0" "i < length (files fs)"
    by blast
  from ne have "hd oldFiles = oldFiles ! 0" by (simp add: hd_conv_nth)
  with i(3,4) have "hd oldFiles \<in> set (files fs)" by (metis nth_mem)
  with ne i(1,2) assms show ?thesis by blast
qed

theorem MustReplace_panics_witness:
  "\<not> (\<exists>i. i + length [emptyFile 1, emptyFile 3] \<le> length (files (NewFileSet [] None [emptyFile 1, emptyFile 2, emptyFile 3])) \<and>
         take (length [emptyFile 1, emptyFile 3]) (drop i (files (NewFileSet [] None [emptyFile 1, emptyFile 2, emptyFile 3])))
           = [emptyFile 1, emptyFile 3]) \<and>
   MustReplace (NewFileSet [] None [emptyFile 1, emptyFile 2, emptyFile 3]) [emptyFile 1, emptyFile 3] (emptyFile 4)
     = Inl CannotReplaceNonContiguousFiles \<and>
   (\<exists>p. MustReplace (NewFileSet [] None [emptyFile 1, emptyFile 2, emptyFile 3]) [emptyFile 1, emptyFile 3] (emptyFile 4)
     = Inl p) \<and>
   hd [emptyFile 5] \<notin> set (files (NewFileSet [] None [emptyFile 1, emptyFile 2, emptyFile 3])) \<and>
   MustReplace (NewFileSet [] None [emptyFile 1, emptyFile 2, emptyFile 3]) [emptyFile 5] (emptyFile 4)
     = Inl FirstReplacementFileNotFound \<and>
   (\<exists>p. MustReplace (NewFileSet [] None [emptyFile 1, emptyFile 2, emptyFile 3]) [emptyFile 5] (emptyFile 4)
     = Inl p) \<and>
   (\<exists>p. MustReplace (NewFileSet [] None [emptyFile 1, emptyFile 2, emptyFile 3]) [] (emptyFile 4)
     = Inl p)"
proof -
  let ?fs = "NewFileSet [] None [emptyFile 1, emptyFile 2, emptyFile 3]"
  let ?old = "[emptyFile 1, emptyFile 3]"
  have h: "\<not> (\<exists>i. i + length ?old \<le> length (files ?fs) \<and>
         take (length ?old) (drop i (files ?fs)) = ?old)"
  proof
    assume "\<exists>i. i + length ?old \<le> length (files ?fs) \<and>
         take (length ?old) (drop i (files ?fs)) = ?old"
    then obtain i where i: "i + length ?old \<le> length (files ?fs)"
      "take (length ?old) (drop i (files ?fs)) = ?old" by blast
    from i(1) have "i = 0 \<or> i = 1" by (auto simp: NewFileSet_def)
    with i(2) show False by (auto simp: NewFileSet_def)
  qed
  have e: "MustReplace ?fs ?old (emptyFile 4) = Inl CannotReplaceNonContiguousFiles"
    by (simp add: MustReplace_def NewFileSet_def findFirstOld.simps checkContiguous.simps)
  have h2: "hd [emptyFile 5] \<notin> set (files ?fs)" by (simp add: NewFileSet_def)
  have e2: "MustReplace ?fs [emptyFile 5] (emptyFile 4) = Inl FirstReplacementFileNotFound"
    by (simp add: MustReplace_def NewFileSet_def findFirstOld.simps)
  from h e h2 e2 MustReplace_panics [of ?old ?fs "emptyFile 4"]
    MustReplace_panics [of "[emptyFile 5]" ?fs "emptyFile 4"]
    MustReplace_panics [of "[]" ?fs "emptyFile 4"]
  show ?thesis by blast
qed

subsection \<open>C5: the run is replaced by the new file\<close>

text \<open>
  The code looks for the run at the first index that holds \<open>oldFiles[0]\<close>. When the
  non-empty \<open>oldFiles\<close> stands in the list at index \<open>i\<close> and \<open>i\<close> is that first index,
  the run is replaced.
\<close>

lemma MustReplace_first_run:
  assumes "oldFiles \<noteq> []"
    and "i + length oldFiles \<le> length (files fs)"
    and "take (length oldFiles) (drop i (files fs)) = oldFiles"
    and "\<forall>j < i. files fs ! j \<noteq> oldFiles ! 0"
  shows "MustReplace fs oldFiles newFile =
    Inr \<lparr>levels = levels fs, sfile = None,
         files = take i (files fs) @ [newFile] @ drop (i + length oldFiles) (files fs),
         manifestSize = 0\<rparr>"
proof -
  have run: "\<forall>j < length oldFiles. i + j < length (files fs) \<and> files fs ! (i + j) = oldFiles ! j"
    using run_nth [OF assms(3,2)] .
  from assms(1) have "0 < length oldFiles" by simp
  with run have "i + 0 < length (files fs) \<and> files fs ! (i + 0) = oldFiles ! 0" by blast
  then have "findFirstOld (files fs) (oldFiles ! 0) 0 = Inr i"
    using assms(4) by (intro findFirstOld_first) simp_all
  from MustReplace_at [OF assms(1) this run] show ?thesis .
qed

text \<open>
  When no file occurs twice in \<open>fs.files\<close>, an index at which the run stands is the
  first index that holds \<open>oldFiles[0]\<close>.
\<close>

lemma distinct_first_occurrence:
  assumes "distinct fls" "oldFiles \<noteq> []" "i + length oldFiles \<le> length fls"
    and "take (length oldFiles) (drop i fls) = oldFiles"
  shows "\<forall>j < i. fls ! j \<noteq> oldFiles ! 0"
proof (intro allI impI)
  fix j assume j: "j < i"
  from assms(2) have "0 < length oldFiles" by simp
  with run_nth [OF assms(4,3)] have "i + 0 < length fls \<and> fls ! (i + 0) = oldFiles ! 0"
    by blast
  then have i: "i < length fls" and eq: "fls ! i = oldFiles ! 0" by simp_all
  from j i have "j < length fls" "j \<noteq> i" by simp_all
  with assms(1) i have "fls ! j \<noteq> fls ! i" using nth_eq_iff_index_eq [of fls j i] by blast
  with eq show "fls ! j \<noteq> oldFiles ! 0" by simp
qed

text \<open>
  C5. A file occurs once in a file set: its ID is unique there. When the files
  \<open>oldFiles\<close>, at least one, stand in \<open>fs.files\<close> as a contiguous run at index \<open>i\<close>,
  \<open>MustReplace\<close> returns the file set whose files are \<open>fs.files[0:i]\<close>, the new file,
  and \<open>fs.files[i+len(oldFiles):]\<close>, in this order: the very values of the original
  list, at whatever index the run stands. The function is pure in the model: the
  receiver is an argument and is not returned, so its list is as it was.
\<close>

theorem MustReplace_replaces_run:
  assumes "distinct (files fs)"
    and "oldFiles \<noteq> []"
    and "i + length oldFiles \<le> length (files fs)"
    and "take (length oldFiles) (drop i (files fs)) = oldFiles"
  shows "MustReplace fs oldFiles newFile =
    Inr \<lparr>levels = levels fs, sfile = None,
         files = take i (files fs) @ [newFile] @ drop (i + length oldFiles) (files fs),
         manifestSize = 0\<rparr>"
  using MustReplace_first_run [OF assms(2-4) distinct_first_occurrence [OF assms]] .

theorem MustReplace_replaces_run_witness:
  "distinct (files (NewFileSet [] (Some 7) [emptyFile 1, emptyFile 2, emptyFile 3, emptyFile 4])) \<and>
   [emptyFile 2, emptyFile 3] \<noteq> [] \<and>
   1 + length [emptyFile 2, emptyFile 3]
     \<le> length (files (NewFileSet [] (Some 7) [emptyFile 1, emptyFile 2, emptyFile 3, emptyFile 4])) \<and>
   take (length [emptyFile 2, emptyFile 3])
     (drop 1 (files (NewFileSet [] (Some 7) [emptyFile 1, emptyFile 2, emptyFile 3, emptyFile 4])))
     = [emptyFile 2, emptyFile 3] \<and>
   MustReplace (NewFileSet [] (Some 7) [emptyFile 1, emptyFile 2, emptyFile 3, emptyFile 4])
       [emptyFile 2, emptyFile 3] (emptyFile 9)
     = Inr \<lparr>levels = [], sfile = None, files = [emptyFile 1, emptyFile 9, emptyFile 4],
           manifestSize = 0\<rparr>"
proof -
  let ?fs = "NewFileSet [] (Some 7) [emptyFile 1, emptyFile 2, emptyFile 3, emptyFile 4]"
  let ?old = "[emptyFile 2, emptyFile 3]"
  have a: "?old \<noteq> []" by simp
  have b: "1 + length ?old \<le> length (files ?fs)" by (simp add: NewFileSet_def)
  have c: "take (length ?old) (drop 1 (files ?fs)) = ?old" by (simp add: NewFileSet_def)
  have d: "distinct (files ?fs)" by (simp add: NewFileSet_def)
  from MustReplace_replaces_run [OF d a b c, of "emptyFile 9"] a b c d
  show ?thesis by (simp add: NewFileSet_def)
qed

subsection \<open>C10: MustReplace drops the series file and the manifest size\<close>

text \<open>
  C10. Whatever series file the receiver holds, the file set \<open>MustReplace\<close> returns has
  a nil series file and a zero manifest size, while \<open>PrependLogFile\<close> keeps the
  receiver's series file.
\<close>

theorem MustReplace_drops_sfile:
  assumes "sfile fs \<noteq> None" and "MustReplace fs oldFiles newFile = Inr fs'"
  shows "SeriesFile fs' = None \<and> manifestSize fs' = 0 \<and>
    SeriesFile (PrependLogFile fs f) = SeriesFile fs"
  using assms
  by (auto simp: MustReplace_def SeriesFile_def PrependLogFile_def split: if_splits sum.splits)

theorem MustReplace_drops_sfile_witness:
  "sfile (NewFileSet [] (Some 7) [emptyFile 1, emptyFile 2]) \<noteq> None \<and>
   MustReplace (NewFileSet [] (Some 7) [emptyFile 1, emptyFile 2]) [emptyFile 2] (emptyFile 9)
     = Inr \<lparr>levels = [], sfile = None, files = [emptyFile 1, emptyFile 9], manifestSize = 0\<rparr> \<and>
   SeriesFile \<lparr>levels = [], sfile = None, files = [emptyFile 1, emptyFile 9], manifestSize = 0\<rparr> = None \<and>
   manifestSize \<lparr>levels = [], sfile = None, files = [emptyFile 1, emptyFile 9], manifestSize = 0\<rparr> = 0 \<and>
   SeriesFile (PrependLogFile (NewFileSet [] (Some 7) [emptyFile 1, emptyFile 2]) (emptyFile 5)) = Some 7"
proof -
  let ?fs = "NewFileSet [] (Some 7) [emptyFile 1, emptyFile 2]"
  let ?r = "\<lparr>levels = [], sfile = None, files = [emptyFile 1, emptyFile 9], manifestSize = 0\<rparr>"
  have a: "sfile ?fs \<noteq> None" by (simp add: NewFileSet_def)
  have b: "MustReplace ?fs [emptyFile 2] (emptyFile 9) = Inr ?r"
    by (simp add: MustReplace_def NewFileSet_def findFirstOld.simps checkContiguous.simps)
  have c: "SeriesFile ?fs = Some 7" by (simp add: SeriesFile_def NewFileSet_def)
  from MustReplace_drops_sfile [OF a b, of "emptyFile 5"] a b c show ?thesis by simp
qed

section \<open>Claims about the merge iterators\<close>

subsection \<open>C2: the tombstone flag of a group is that of its newest member\<close>

text \<open>
  C2. For every state of a merge iterator over per-file iterators in file order:
  a group that \<open>Next\<close> returns is not empty, it is made of the buffered elements
  with its key in slot order, and its \<open>Deleted\<close> is the flag of its first member;
  so when the first slot that buffers the key belongs to the element \<open>x\<close>, the group
  is deleted exactly when \<open>x\<close> is, whatever the later (older) slots hold. An
  adapter over the merge iterator returns the key of the first group that is not
  deleted among the results still to come (nil when there is none) and leaves the
  iterator behind that group: the deleted groups before it are skipped. When the
  per-file iterators are sorted and no key is the nil slice, the groups returned
  up to the first nil are, for every key of every file, all the elements of that
  key in file order: the tombstone flag of the key is the flag of the first
  (newest) file that holds it.
\<close>

theorem merged_Deleted_of_newest:
  "(merge_Next key itr = (Some g, itr') \<longrightarrow>
      g \<noteq> [] \<and> mergeElem_Deleted del g = del (hd g) \<and>
      g = filter (\<lambda>b. bytes_Equal (key b) (mergeElem_key key g))
            (buffered (map refill (mrg_slots itr)))) \<and>
   (merge_Next key itr = (Some g, itr') \<and>
    map refill (mrg_slots itr) = pre @ (Some x, it) # post \<and>
    bytes_Equal (key x) (mergeElem_key key g) \<and>
    (\<forall>b \<in> set (buffered pre). \<not> bytes_Equal (key b) (key x)) \<longrightarrow>
      mergeElem_Deleted del g = del x) \<and>
   (\<exists>itr2. tsdbIteratorAdapter_Next (merge_Next key) (mergeElem_Deleted del) (mergeElem_key key) itr
        = Some (case dropWhile (mergeElem_Deleted del) (drain key itr) of
                  [] \<Rightarrow> None
                | h # hs \<Rightarrow> mergeElem_key key h, itr2) \<and>
      drain key itr2 = drop 1 (dropWhile (mergeElem_Deleted del) (drain key itr))) \<and>
   ((\<forall>src \<in> set itrs. ascending key src \<and> (\<forall>e \<in> set src. key e \<noteq> None)) \<and>
    MergeIterators itrs = Some itr0 \<longrightarrow>
      (\<forall>h \<in> set (drain key itr0).
         h = filter (has_content key (content (mergeElem_key key h))) (concat itrs) \<and>
         mergeElem_Deleted del h
           = del (hd (filter (has_content key (content (mergeElem_key key h))) (concat itrs)))) \<and>
      (\<forall>e \<in> set (concat itrs).
         \<exists>h \<in> set (drain key itr0). content (mergeElem_key key h) = content (key e)))"
proof (intro conjI impI)
  assume n: "merge_Next key itr = (Some g, itr')"
  from merge_Next_group [OF n] show "g \<noteq> []"
    and "g = filter (\<lambda>b. bytes_Equal (key b) (mergeElem_key key g))
            (buffered (map refill (mrg_slots itr)))" by simp_all
  from merge_Next_group [OF n] show "mergeElem_Deleted del g = del (hd g)"
    by (simp add: mergeElem_Deleted_def hd_conv_nth)
next
  assume a: "merge_Next key itr = (Some g, itr') \<and>
    map refill (mrg_slots itr) = pre @ (Some x, it) # post \<and>
    bytes_Equal (key x) (mergeElem_key key g) \<and>
    (\<forall>b \<in> set (buffered pre). \<not> bytes_Equal (key b) (key x))"
  then have n: "merge_Next key itr = (Some g, itr')" by simp
  let ?P = "\<lambda>b. bytes_Equal (key b) (mergeElem_key key g)"
  from a have "\<forall>b \<in> set (buffered pre). \<not> ?P b" by (auto simp: bytes_Equal_def)
  then have "filter ?P (buffered pre) = []" by (simp add: filter_empty_conv)
  moreover from merge_Next_group [OF n] a
  have "g = filter ?P (buffered (pre @ (Some x, it) # post))" by simp
  ultimately have "g = x # filter ?P (buffered post)" using a by (simp add: buffered_append)
  then have "g \<noteq> []" "g ! 0 = x" by (metis list.distinct(1), metis nth_Cons_0)
  then show "mergeElem_Deleted del g = del x" by (simp add: mergeElem_Deleted_def)
next
  show "\<exists>itr2. tsdbIteratorAdapter_Next (merge_Next key) (mergeElem_Deleted del) (mergeElem_key key) itr
        = Some (case dropWhile (mergeElem_Deleted del) (drain key itr) of
                  [] \<Rightarrow> None
                | h # hs \<Rightarrow> mergeElem_key key h, itr2) \<and>
      drain key itr2 = drop 1 (dropWhile (mergeElem_Deleted del) (drain key itr))"
    by (rule adapter_merge)
next
  assume a: "(\<forall>src \<in> set itrs. ascending key src \<and> (\<forall>e \<in> set src. key e \<noteq> None)) \<and>
    MergeIterators itrs = Some itr0"
  then have ok: "sources_ok key itr0" using MergeIterators_sources_ok by blast
  from a have rem: "remaining (mrg_slots itr0) = concat itrs"
    using remaining_MergeIterators by blast
  show "\<forall>h \<in> set (drain key itr0).
         h = filter (has_content key (content (mergeElem_key key h))) (concat itrs) \<and>
         mergeElem_Deleted del h
           = del (hd (filter (has_content key (content (mergeElem_key key h))) (concat itrs)))"
  proof
    fix h assume h: "h \<in> set (drain key itr0)"
    from drain_full [OF ok h] rem
    have eq: "h = filter (has_content key (content (mergeElem_key key h))) (concat itrs)"
      by simp
    from drain_groups [OF h] have "h \<noteq> []" by simp
    then have "mergeElem_Deleted del h = del (hd h)"
      by (simp add: mergeElem_Deleted_def hd_conv_nth)
    with eq show "h = filter (has_content key (content (mergeElem_key key h))) (concat itrs) \<and>
         mergeElem_Deleted del h
           = del (hd (filter (has_content key (content (mergeElem_key key h))) (concat itrs)))"
      by metis
  qed
  show "\<forall>e \<in> set (concat itrs).
         \<exists>h \<in> set (drain key itr0). content (mergeElem_key key h) = content (key e)"
  proof
    fix e assume "e \<in> set (concat itrs)"
    moreover from ok have "set (concat (drain key itr0)) = set (remaining (mrg_slots itr0))"
      by (intro drain_elements) (simp add: sources_ok_def)
    ultimately obtain h where h: "h \<in> set (drain key itr0)" "e \<in> set h"
      using rem by auto
    from drain_groups [OF h(1)] h(2) have "content (mergeElem_key key h) = content (key e)"
      by simp
    with h(1) show "\<exists>h \<in> set (drain key itr0). content (mergeElem_key key h) = content (key e)"
      by blast
  qed
qed

theorem merged_Deleted_of_newest_witness:
  "merge_Next MetricElem.Name \<lparr>mrg_e = [m_a], mrg_slots = [(Some m_bd, [m_c]), (None, [m_b])]\<rparr>
     = (Some [m_bd, m_b], \<lparr>mrg_e = [m_bd, m_b], mrg_slots = [(None, [m_c]), (None, [])]\<rparr>) \<and>
   map refill [(Some m_bd, [m_c]), (None, [m_b])] = [] @ (Some m_bd, [m_c]) # [(Some m_b, [])] \<and>
   bytes_Equal (MetricElem.Name m_bd) (mergeElem_key MetricElem.Name [m_bd, m_b]) \<and>
   MetricElem.Deleted m_bd \<and>
   mergeElem_Deleted MetricElem.Deleted [m_bd, m_b] \<and>
   (\<exists>itr2. tsdbIteratorAdapter_Next (merge_Next MetricElem.Name)
        (mergeElem_Deleted MetricElem.Deleted) (mergeElem_key MetricElem.Name)
        \<lparr>mrg_e = [m_a], mrg_slots = [(Some m_bd, [m_c]), (None, [m_b])]\<rparr>
      = Some (Some ''c'', itr2)) \<and>
   ascending MetricElem.Name [m_bd, m_c] \<and> ascending MetricElem.Name [m_a, m_b] \<and>
   MergeIterators [[m_bd, m_c], [m_a, m_b]]
     = Some \<lparr>mrg_e = [], mrg_slots = [(None, [m_bd, m_c]), (None, [m_a, m_b])]\<rparr> \<and>
   [m_bd, m_b]
     \<in> set (drain MetricElem.Name
             \<lparr>mrg_e = [], mrg_slots = [(None, [m_bd, m_c]), (None, [m_a, m_b])]\<rparr>) \<and>
   [m_bd, m_b]
     = filter (has_content MetricElem.Name (content (mergeElem_key MetricElem.Name [m_bd, m_b])))
         (concat [[m_bd, m_c], [m_a, m_b]])"
proof -
  let ?i1 = "\<lparr>mrg_e = [m_a], mrg_slots = [(Some m_bd, [m_c]), (None, [m_b])]\<rparr>"
  let ?i2 = "\<lparr>mrg_e = [m_bd, m_b], mrg_slots = [(None, [m_c]), (None, [])]\<rparr>"
  note inst = merged_Deleted_of_newest [where key = "MetricElem.Name" and itr = ?i1
      and g = "[m_bd, m_b]" and itr' = ?i2 and del = "MetricElem.Deleted" and pre = "[]"
      and x = m_bd and it = "[m_c]" and post = "[(Some m_b, [])]"]
  have a: "map refill (mrg_slots ?i1) = [] @ (Some m_bd, [m_c]) # [(Some m_b, [])]" by simp
  have b: "bytes_Equal (MetricElem.Name m_bd) (mergeElem_key MetricElem.Name [m_bd, m_b])"
    by (simp add: bytes_Equal_def mergeElem_key_def)
  have c: "MetricElem.Deleted m_bd" by (simp add: m_bd_def)
  have d: "\<forall>b \<in> set (buffered []). \<not> bytes_Equal (MetricElem.Name b) (MetricElem.Name m_bd)"
    by simp
  from inst run_Next2 a b d have "mergeElem_Deleted MetricElem.Deleted [m_bd, m_b] = MetricElem.Deleted m_bd"
    by blast
  with c have e: "mergeElem_Deleted MetricElem.Deleted [m_bd, m_b]" by simp
  have f: "dropWhile (mergeElem_Deleted MetricElem.Deleted) (drain MetricElem.Name ?i1) = [[m_c]]"
    unfolding run_drain2 by (simp add: mergeElem_Deleted_def m_bd_def m_c_def)
  from inst obtain itr2 where "tsdbIteratorAdapter_Next (merge_Next MetricElem.Name)
        (mergeElem_Deleted MetricElem.Deleted) (mergeElem_key MetricElem.Name) ?i1
      = Some (case dropWhile (mergeElem_Deleted MetricElem.Deleted) (drain MetricElem.Name ?i1) of
                  [] \<Rightarrow> None
                | h # hs \<Rightarrow> mergeElem_key MetricElem.Name h, itr2)" by blast
  then have "tsdbIteratorAdapter_Next (merge_Next MetricElem.Name)
        (mergeElem_Deleted MetricElem.Deleted) (mergeElem_key MetricElem.Name) ?i1
      = Some (Some ''c'', itr2)"
    unfolding f by (simp add: mergeElem_key_def m_c_def)
  then have g: "\<exists>itr2. tsdbIteratorAdapter_Next (merge_Next MetricElem.Name)
        (mergeElem_Deleted MetricElem.Deleted) (mergeElem_key MetricElem.Name) ?i1
      = Some (Some ''c'', itr2)" by blast
  let ?i0 = "\<lparr>mrg_e = [], mrg_slots = [(None, [m_bd, m_c]), (None, [m_a, m_b])]\<rparr>"
  note inst0 = merged_Deleted_of_newest [where key = "MetricElem.Name"
      and itrs = "[[m_bd, m_c], [m_a, m_b]]" and itr0 = ?i0]
  have srt: "ascending MetricElem.Name [m_bd, m_c]" "ascending MetricElem.Name [m_a, m_b]"
    by (simp_all add: ascending_def content_def m_a_def m_b_def m_bd_def m_c_def)
  have nonnil: "\<forall>e \<in> set [m_bd, m_c]. MetricElem.Name e \<noteq> None"
    "\<forall>e \<in> set [m_a, m_b]. MetricElem.Name e \<noteq> None"
    by (simp_all add: m_a_def m_b_def m_bd_def m_c_def)
  have mk: "MergeIterators [[m_bd, m_c], [m_a, m_b]] = Some ?i0"
    by (simp add: MergeIterators_def)
  have mem: "[m_bd, m_b] \<in> set (drain MetricElem.Name ?i0)"
    unfolding run_drain1 by simp
  from srt nonnil have "\<forall>src \<in> set [[m_bd, m_c], [m_a, m_b]].
      ascending MetricElem.Name src \<and> (\<forall>e \<in> set src. MetricElem.Name e \<noteq> None)"
    by simp
  with inst0 mk mem have full: "[m_bd, m_b]
     = filter (has_content MetricElem.Name (content (mergeElem_key MetricElem.Name [m_bd, m_b])))
         (concat [[m_bd, m_c], [m_a, m_b]])"
    by blast
  have a': "map refill [(Some m_bd, [m_c]), (None, [m_b])] = [] @ (Some m_bd, [m_c]) # [(Some m_b, [])]"
    by simp
  from run_Next2 a' b c e g srt mk mem full show ?thesis by blast
qed

subsection \<open>C3: the keys of the results increase strictly\<close>

text \<open>
  C3. When every source iterator is sorted strictly increasing by the bytes of its
  keys, the groups that the successive calls of \<open>Next\<close> return, up to the first nil,
  have strictly increasing keys, so no two of them share a key; and a group that
  \<open>Next\<close> returns in any state is made of all the elements buffered after the
  refill whose key equals the group's, in slot order, which is the file order.
\<close>

theorem merge_output_increasing:
  assumes "\<forall>it \<in> set itrs. ascending key it" and "MergeIterators itrs = Some itr"
  shows "sorted_wrt (\<lambda>g h. content (mergeElem_key key g) < content (mergeElem_key key h))
           (drain key itr) \<and>
         (\<forall>st g st'. merge_Next key st = (Some g, st') \<longrightarrow>
            g \<noteq> [] \<and>
            g = filter (\<lambda>b. bytes_Equal (key b) (mergeElem_key key g))
                  (buffered (map refill (mrg_slots st))))"
  using drain_sorted [OF MergeIterators_ascending [OF assms]] merge_Next_group by blast

theorem merge_output_increasing_witness:
  "ascending MetricElem.Name [m_bd, m_c] \<and> ascending MetricElem.Name [m_a, m_b] \<and>
   MergeIterators [[m_bd, m_c], [m_a, m_b]]
     = Some \<lparr>mrg_e = [], mrg_slots = [(None, [m_bd, m_c]), (None, [m_a, m_b])]\<rparr> \<and>
   drain MetricElem.Name \<lparr>mrg_e = [], mrg_slots = [(None, [m_bd, m_c]), (None, [m_a, m_b])]\<rparr>
     = [[m_a], [m_bd, m_b], [m_c]] \<and>
   sorted_wrt (\<lambda>g h. content (mergeElem_key MetricElem.Name g) < content (mergeElem_key MetricElem.Name h))
     [[m_a], [m_bd, m_b], [m_c]] \<and>
   merge_Next MetricElem.Name \<lparr>mrg_e = [m_a], mrg_slots = [(Some m_bd, [m_c]), (None, [m_b])]\<rparr>
     = (Some [m_bd, m_b], \<lparr>mrg_e = [m_bd, m_b], mrg_slots = [(None, [m_c]), (None, [])]\<rparr>) \<and>
   [m_bd, m_b]
     = filter (\<lambda>b. bytes_Equal (MetricElem.Name b) (mergeElem_key MetricElem.Name [m_bd, m_b]))
         (buffered (map refill [(Some m_bd, [m_c]), (None, [m_b])]))"
proof -
  have a: "\<forall>it \<in> set [[m_bd, m_c], [m_a, m_b]]. ascending MetricElem.Name it"
    by (simp add: ascending_def content_def m_a_def m_b_def m_bd_def m_c_def)
  have b: "MergeIterators [[m_bd, m_c], [m_a, m_b]]
     = Some \<lparr>mrg_e = [], mrg_slots = [(None, [m_bd, m_c]), (None, [m_a, m_b])]\<rparr>"
    by (simp add: MergeIterators_def)
  note inst = merge_output_increasing [OF a b]
  from inst run_drain1
  have c: "sorted_wrt (\<lambda>g h. content (mergeElem_key MetricElem.Name g) < content (mergeElem_key MetricElem.Name h))
     [[m_a], [m_bd, m_b], [m_c]]" by simp
  from inst run_Next2
  have "[m_bd, m_b]
     = filter (\<lambda>b. bytes_Equal (MetricElem.Name b) (mergeElem_key MetricElem.Name [m_bd, m_b]))
         (buffered (map refill (mrg_slots \<lparr>mrg_e = [m_a], mrg_slots = [(Some m_bd, [m_c]), (None, [m_b])]\<rparr>)))"
    by blast
  then have d: "[m_bd, m_b]
     = filter (\<lambda>b. bytes_Equal (MetricElem.Name b) (mergeElem_key MetricElem.Name [m_bd, m_b]))
         (buffered (map refill [(Some m_bd, [m_c]), (None, [m_b])]))"
    by simp
  from a have a': "ascending MetricElem.Name [m_bd, m_c]" "ascending MetricElem.Name [m_a, m_b]"
    by simp_all
  from a' b run_drain1 c run_Next2 d show ?thesis by blast
qed

section \<open>Claims about the read surface\<close>

subsection \<open>C6: Metric returns the first match unless it is deleted\<close>

lemma Metric_loop_skip:
  "\<forall>g \<in> set pre. File.Metric g n = None \<Longrightarrow> Metric_loop (pre @ fls) n = Metric_loop fls n"
  by (induction pre) simp_all

text \<open>
  C6. \<open>Metric\<close> goes through the files in list order. When no file holds the name
  the result is nil. When \<open>f\<close> is the first file that holds it, with element \<open>e\<close>,
  the result is nil if \<open>e\<close> is deleted and \<open>e\<close> otherwise, whatever the files
  \<open>post\<close> after \<open>f\<close> are: they are not consulted.
\<close>

theorem FileSet_Metric_first_match:
  "((\<forall>f \<in> set (files fs). File.Metric f n = None) \<longrightarrow> FileSet_Metric fs n = None) \<and>
   (files fs = pre @ f # post \<and> (\<forall>g \<in> set pre. File.Metric g n = None) \<and>
    File.Metric f n = Some e \<longrightarrow>
      FileSet_Metric fs n = (if MetricElem.Deleted e then None else Some e))"
proof (intro conjI impI)
  assume "\<forall>f \<in> set (files fs). File.Metric f n = None"
  from Metric_loop_skip [OF this, of "[]"] show "FileSet_Metric fs n = None"
    by (simp add: FileSet_Metric_def)
next
  assume a: "files fs = pre @ f # post \<and> (\<forall>g \<in> set pre. File.Metric g n = None) \<and>
    File.Metric f n = Some e"
  then have "Metric_loop (pre @ f # post) n = Metric_loop (f # post) n"
    using Metric_loop_skip by blast
  with a show "FileSet_Metric fs n = (if MetricElem.Deleted e then None else Some e)"
    by (simp add: FileSet_Metric_def)
qed

theorem FileSet_Metric_first_match_witness:
  "files (NewFileSet [] None [emptyFile 1, metricFile 2 [m_a, m_bd], metricFile 3 [m_b]])
     = [emptyFile 1] @ metricFile 2 [m_a, m_bd] # [metricFile 3 [m_b]] \<and>
   File.Metric (emptyFile 1) (Some ''b'') = None \<and>
   File.Metric (metricFile 2 [m_a, m_bd]) (Some ''b'') = Some m_bd \<and>
   MetricElem.Deleted m_bd \<and>
   FileSet_Metric (NewFileSet [] None [emptyFile 1, metricFile 2 [m_a, m_bd], metricFile 3 [m_b]])
     (Some ''b'') = None \<and>
   files (NewFileSet [] None [emptyFile 1, metricFile 2 [m_a], metricFile 3 [m_b]])
     = [emptyFile 1] @ metricFile 2 [m_a] # [metricFile 3 [m_b]] \<and>
   File.Metric (metricFile 2 [m_a]) (Some ''a'') = Some m_a \<and>
   \<not> MetricElem.Deleted m_a \<and>
   FileSet_Metric (NewFileSet [] None [emptyFile 1, metricFile 2 [m_a], metricFile 3 [m_b]])
     (Some ''a'') = Some m_a \<and>
   File.Metric (emptyFile 1) (Some ''c'') = None \<and>
   File.Metric (metricFile 2 [m_a]) (Some ''c'') = None \<and>
   File.Metric (metricFile 3 [m_b]) (Some ''c'') = None \<and>
   FileSet_Metric (NewFileSet [] None [emptyFile 1, metricFile 2 [m_a], metricFile 3 [m_b]])
     (Some ''c'') = None"
proof -
  let ?fs = "NewFileSet [] None [emptyFile 1, metricFile 2 [m_a, m_bd], metricFile 3 [m_b]]"
  have a: "files ?fs = [emptyFile 1] @ metricFile 2 [m_a, m_bd] # [metricFile 3 [m_b]]"
    by (simp add: NewFileSet_def)
  have b: "\<forall>g \<in> set [emptyFile 1]. File.Metric g (Some ''b'') = None"
    by (simp add: emptyFile_def)
  have c: "File.Metric (metricFile 2 [m_a, m_bd]) (Some ''b'') = Some m_bd"
    by (simp add: metricFile_def bytes_Equal_def content_def m_a_def m_bd_def)
  have d: "MetricElem.Deleted m_bd" by (simp add: m_bd_def)
  from FileSet_Metric_first_match [of ?fs "Some ''b''" "[emptyFile 1]" "metricFile 2 [m_a, m_bd]"
      "[metricFile 3 [m_b]]" m_bd] a b c d
  have r1: "FileSet_Metric ?fs (Some ''b'') = None" by simp
  let ?fs2 = "NewFileSet [] None [emptyFile 1, metricFile 2 [m_a], metricFile 3 [m_b]]"
  have a2: "files ?fs2 = [emptyFile 1] @ metricFile 2 [m_a] # [metricFile 3 [m_b]]"
    by (simp add: NewFileSet_def)
  have b2: "\<forall>g \<in> set [emptyFile 1]. File.Metric g (Some ''a'') = None"
    by (simp add: emptyFile_def)
  have c2: "File.Metric (metricFile 2 [m_a]) (Some ''a'') = Some m_a"
    by (simp add: metricFile_def bytes_Equal_def content_def m_a_def)
  have d2: "\<not> MetricElem.Deleted m_a" by (simp add: m_a_def)
  from FileSet_Metric_first_match [of ?fs2 "Some ''a''" "[emptyFile 1]" "metricFile 2 [m_a]"
      "[metricFile 3 [m_b]]" m_a] a2 b2 c2 d2
  have r2: "FileSet_Metric ?fs2 (Some ''a'') = Some m_a" by simp
  have n1: "File.Metric (emptyFile 1) (Some ''c'') = None" by (simp add: emptyFile_def)
  have n2: "File.Metric (metricFile 2 [m_a]) (Some ''c'') = None"
    by (simp add: metricFile_def bytes_Equal_def content_def m_a_def)
  have n3: "File.Metric (metricFile 3 [m_b]) (Some ''c'') = None"
    by (simp add: metricFile_def bytes_Equal_def content_def m_b_def)
  from n1 n2 n3 have "\<forall>f \<in> set (files ?fs2). File.Metric f (Some ''c'') = None"
    by (simp add: NewFileSet_def)
  with FileSet_Metric_first_match [of ?fs2 "Some ''c''"]
  have r3: "FileSet_Metric ?fs2 (Some ''c'') = None" by blast
  from a b c d r1 a2 c2 d2 r2 n1 n2 n3 r3 show ?thesis by simp
qed

subsection \<open>C7: the tag values below a tombstoned key\<close>

lemma tagValueIterators_takeWhile:
  "tagValueIterators p =
     map TagKeyElem.TagValueIterator
       (takeWhile (\<lambda>e. \<not> TagKeyElem.Deleted e) p @ take 1 (dropWhile (\<lambda>e. \<not> TagKeyElem.Deleted e) p))"
  by (induction p) simp_all

lemma tagValueIterators_upto:
  "\<forall>e \<in> set pre. \<not> TagKeyElem.Deleted e \<Longrightarrow> TagKeyElem.Deleted d \<Longrightarrow>
     tagValueIterators (pre @ d # post) = map TagKeyElem.TagValueIterator (pre @ [d])"
  by (induction pre) simp_all

text \<open>
  C7. The merged tag value iterator of a group of tag key elements is built from
  the sub-iterators of the members before the first deleted member and of that
  member, in order, and from nothing else: with \<open>d\<close> the first deleted member, the
  result is the same whatever the members \<open>post\<close> after \<open>d\<close> are.
\<close>

theorem TagValueIterator_stops_at_tombstone:
  "tagKeyMergeElem_TagValueIterator p =
     (if p = [] then None
      else MergeTagValueIterators
        (map TagKeyElem.TagValueIterator
          (takeWhile (\<lambda>e. \<not> TagKeyElem.Deleted e) p
             @ take 1 (dropWhile (\<lambda>e. \<not> TagKeyElem.Deleted e) p)))) \<and>
   ((\<forall>e \<in> set pre. \<not> TagKeyElem.Deleted e) \<and> TagKeyElem.Deleted d \<longrightarrow>
      tagKeyMergeElem_TagValueIterator (pre @ d # post)
        = MergeTagValueIterators (map TagKeyElem.TagValueIterator (pre @ [d])))"
proof (intro conjI impI)
  show "tagKeyMergeElem_TagValueIterator p =
     (if p = [] then None
      else MergeTagValueIterators
        (map TagKeyElem.TagValueIterator
          (takeWhile (\<lambda>e. \<not> TagKeyElem.Deleted e) p
             @ take 1 (dropWhile (\<lambda>e. \<not> TagKeyElem.Deleted e) p))))"
    by (simp only: tagKeyMergeElem_TagValueIterator_def tagValueIterators_takeWhile length_0_conv)
next
  assume "(\<forall>e \<in> set pre. \<not> TagKeyElem.Deleted e) \<and> TagKeyElem.Deleted d"
  then have "tagValueIterators (pre @ d # post) = map TagKeyElem.TagValueIterator (pre @ [d])"
    using tagValueIterators_upto by blast
  then show "tagKeyMergeElem_TagValueIterator (pre @ d # post)
        = MergeTagValueIterators (map TagKeyElem.TagValueIterator (pre @ [d]))"
    by (simp add: tagKeyMergeElem_TagValueIterator_def)
qed

theorem TagValueIterator_stops_at_tombstone_witness:
  "\<not> TagKeyElem.Deleted k_host1 \<and> TagKeyElem.Deleted k_host2 \<and>
   tagKeyMergeElem_TagValueIterator ([k_host1] @ k_host2 # [k_host3])
     = MergeTagValueIterators [[v_a], [v_b]] \<and>
   MergeTagValueIterators [[v_a], [v_b]]
     = Some \<lparr>mrg_e = [], mrg_slots = [(None, [v_a]), (None, [v_b])]\<rparr>"
proof -
  have a: "\<forall>e \<in> set [k_host1]. \<not> TagKeyElem.Deleted e" by (simp add: k_host1_def)
  have b: "TagKeyElem.Deleted k_host2" by (simp add: k_host2_def)
  have c: "map TagKeyElem.TagValueIterator ([k_host1] @ [k_host2]) = [[v_a], [v_b]]"
    by (simp add: k_host1_def k_host2_def)
  have d: "MergeTagValueIterators [[v_a], [v_b]]
     = Some \<lparr>mrg_e = [], mrg_slots = [(None, [v_a]), (None, [v_b])]\<rparr>"
    by (simp add: MergeTagValueIterators_def MergeIterators_def)
  from TagValueIterator_stops_at_tombstone [of "[]" "[k_host1]" k_host2 "[k_host3]"] a b
  have "tagKeyMergeElem_TagValueIterator ([k_host1] @ k_host2 # [k_host3])
        = MergeTagValueIterators (map TagKeyElem.TagValueIterator ([k_host1] @ [k_host2]))"
    by blast
  with a b c d show ?thesis by simp
qed

subsection \<open>C1: tombstones and the series of a tag value\<close>

lemma Cardinality_pos: "0 < Cardinality t \<longleftrightarrow> t \<noteq> {||}"
  using fcard_0_eq [of t] by (auto simp: Cardinality_def fcard_fempty)

text \<open>
  The result of the loop when every file can be read: the tombstones of every
  file but the newest are applied, to the series of that file and of the older
  ones; the series of the newest file are added last, and its tombstones are
  fetched and dropped.
\<close>

lemma tagValueSeriesLoop_resolved:
  assumes "\<forall>g \<in> set (pl @ [f]). readable n k v g"
  shows "tagValueSeriesLoop n k v (pl @ [f]) ss ftss =
    Inr (foldl (\<lambda>b g. (b |\<union>| seriesOf n k v g) |-| tombstonesOf g)
           (ss |-| (case ftss of None \<Rightarrow> {||} | Some t \<Rightarrow> t)) pl
         |\<union>| seriesOf n k v f)"
  using assms
proof (induction pl arbitrary: ss ftss)
  case Nil
  then obtain s t where "File.TagValueSeriesIDSet f n k v = Inr s" "File.TombstoneSeriesIDSet f = Inr t"
    by (auto simp: readable_def)
  then show ?case
    by (auto simp: seriesOf_def Merge_def AndNot_def Cardinality_pos Let_def
        split: option.splits)
next
  case (Cons g pl)
  then obtain s t where st: "File.TagValueSeriesIDSet g n k v = Inr s" "File.TombstoneSeriesIDSet g = Inr t"
    by (auto simp: readable_def)
  from Cons.prems have rest: "\<forall>g \<in> set (pl @ [f]). readable n k v g" by simp
  let ?b = "ss |-| (case ftss of None \<Rightarrow> {||} | Some t \<Rightarrow> t)"
  have ss1: "(case ftss of None \<Rightarrow> ss | Some t \<Rightarrow> if Cardinality t > 0 then AndNot ss t else ss) = ?b"
    by (auto simp: AndNot_def Cardinality_pos split: option.splits)
  have ss2: "(case s of None \<Rightarrow> ?b | Some s' \<Rightarrow> Merge ?b s') = ?b |\<union>| seriesOf n k v g"
    using st(1) by (auto simp: seriesOf_def Merge_def split: option.splits)
  have tg: "(case t of None \<Rightarrow> {||} | Some t' \<Rightarrow> t') = tombstonesOf g"
    using st(2) by (auto simp: tombstonesOf_def split: option.splits)
  have "tagValueSeriesLoop n k v ((g # pl) @ [f]) ss ftss
      = tagValueSeriesLoop n k v (pl @ [f]) (?b |\<union>| seriesOf n k v g) t"
    using st ss1 ss2 by (simp add: Let_def)
  also have "\<dots> = Inr (foldl (\<lambda>b g. (b |\<union>| seriesOf n k v g) |-| tombstonesOf g)
           ((?b |\<union>| seriesOf n k v g) |-| tombstonesOf g) pl
         |\<union>| seriesOf n k v f)"
    using Cons.IH [OF rest, of "?b |\<union>| seriesOf n k v g" t] tg by simp
  finally show ?case by simp
qed

lemma foldl_resolved:
  "foldl (\<lambda>b g. (b |\<union>| seriesOf n k v g) |-| tombstonesOf g) {||} (rev older)
     = resolved n k v older"
  by (induction older) simp_all

lemma TagValueSeriesIDIterator_resolved:
  assumes "files fs = newest # older" and "\<forall>g \<in> set (files fs). readable n k v g"
  shows "FileSet_TagValueSeriesIDIterator fs n k v
    = Inr (resolved n k v older |\<union>| seriesOf n k v newest)"
proof -
  from assms have "\<forall>g \<in> set (rev older @ [newest]). readable n k v g" by simp
  from tagValueSeriesLoop_resolved [OF this, of NewSeriesIDSet None] assms(1)
  show ?thesis
    by (simp add: FileSet_TagValueSeriesIDIterator_def NewSeriesIDSet_def foldl_resolved)
qed

text \<open>
  With two files the loop runs twice, first on the older file. The tombstone set
  of the older file is subtracted before the newer file's series are merged; the
  tombstone set \<open>tn\<close> of the newer file is fetched in the last iteration and the
  loop ends: the result does not depend on it.
\<close>

lemma TagValueSeriesIDIterator_two_files:
  assumes "files fs = [newer, older]"
    and "File.TagValueSeriesIDSet older n k v = Inr (Some so)"
    and "File.TombstoneSeriesIDSet older = Inr (Some to)"
    and "File.TagValueSeriesIDSet newer n k v = Inr (Some sn)"
    and "File.TombstoneSeriesIDSet newer = Inr tn"
  shows "FileSet_TagValueSeriesIDIterator fs n k v = Inr ((so |-| to) |\<union>| sn)"
  using assms
  by (auto simp: FileSet_TagValueSeriesIDIterator_def NewSeriesIDSet_def Merge_def AndNot_def
      Cardinality_pos)

text \<open>
  A tombstone set of a file that is not the first of the list is applied: with
  three files, the series \<open>2\<close> of the oldest file is removed by the tombstone of
  the file in the middle.
\<close>

lemma TagValueSeriesIDIterator_middle_tombstone:
  "FileSet_TagValueSeriesIDIterator
     (NewFileSet [] None
        [seriesFile 1 None None, seriesFile 2 None (Some {|2|}), seriesFile 3 (Some {|1, 2, 3|}) None])
     (Some ''cpu'') (Some ''host'') (Some ''a'')
   = Inr {|1, 3|}"
  by (auto simp: FileSet_TagValueSeriesIDIterator_def NewFileSet_def seriesFile_def emptyFile_def
      NewSeriesIDSet_def Merge_def AndNot_def Cardinality_pos)

text \<open>
  C1 at its own input: the files are \<open>[newer, older]\<close>, the older file holds the
  series \<open>1, 2, 3\<close> for the tag value, the newer file holds none and tombstones the
  series \<open>2\<close>. The code returns the iterator over \<open>1, 2, 3\<close>, where the claim has
  \<open>1, 3\<close>.
\<close>

theorem TagValueSeriesIDIterator_newest_tombstone_unapplied:
  "FileSet_TagValueSeriesIDIterator
     (NewFileSet [] None [seriesFile 1 None (Some {|2|}), seriesFile 2 (Some {|1, 2, 3|}) None])
     (Some ''cpu'') (Some ''host'') (Some ''a'')
   = Inr {|1, 2, 3|}"
  by (simp add: FileSet_TagValueSeriesIDIterator_def NewFileSet_def seriesFile_def emptyFile_def
      NewSeriesIDSet_def Merge_def AndNot_def Cardinality_pos)

section \<open>Claims about the series cursor and the tag key expressions\<close>

subsection \<open>C8: operators are validated before the index is read\<close>

lemma checkOperator_BinaryExpr:
  "checkOperator (BinaryExpr tok lhs rhs) err =
     (if allowedOperator tok then err else Some InvalidTagComparisonOperator)"
  by (cases tok) (simp_all add: checkOperator_def allowedOperator_def)

lemma fold_checkOperator:
  "fold checkOperator (nodes e) err =
     (if containsInvalidOperator e then Some InvalidTagComparisonOperator else err)"
proof (induction e arbitrary: err)
  case (BinaryExpr tok lhs rhs)
  then show ?case by (simp add: checkOperator_BinaryExpr)
next
  case (ParenExpr e)
  then show ?case by (simp add: checkOperator_def)
qed (simp_all add: checkOperator_def)

text \<open>
  C8. When the tree contains an operator that is not allowed, \<open>newSeriesCursor\<close>
  returns the error and no cursor, and the log of calls on the index set is the
  one it was given: nothing was read. When the predicate is nil or all its
  operators are allowed, the validation passes: the result is the cursor over the
  metric iterator of the request, or over the one the index set returns, or the
  error of the index set.
\<close>

theorem newSeriesCursor_validates_operators:
  "(containsInvalidOperator e \<longrightarrow>
      newSeriesCursor req indexSet (Some e) io = (Inl InvalidTagComparisonOperator, io)) \<and>
   ((case cnd of None \<Rightarrow> True | Some e' \<Rightarrow> \<not> containsInvalidOperator e') \<longrightarrow>
      newSeriesCursor req indexSet cnd io =
        (case Metrics req of
           Some m \<Rightarrow>
             (Inr \<lparr>cur_indexSet = indexSet, cur_mitr = Some m, cur_keys = [], cur_ofs = 0,
                   cur_row = \<lparr>row_Name = None, row_Tags = []\<rparr>, cur_cond = cnd\<rparr>, io)
         | None \<Rightarrow>
             (case IndexSet_MetricIterator indexSet of
                Inl err \<Rightarrow> (Inl err, io @ [IndexSet_MetricIterator_called])
              | Inr m \<Rightarrow>
                  (Inr \<lparr>cur_indexSet = indexSet, cur_mitr = m, cur_keys = [], cur_ofs = 0,
                        cur_row = \<lparr>row_Name = None, row_Tags = []\<rparr>, cur_cond = cnd\<rparr>,
                   io @ [IndexSet_MetricIterator_called]))))"
  by (auto simp: newSeriesCursor_def WalkFunc_def fold_checkOperator split: option.splits sum.splits)

theorem newSeriesCursor_validates_operators_witness:
  "containsInvalidOperator
     (BinaryExpr AND (BinaryExpr EQ (VarRef ''host'') (StringLiteral ''a''))
        (ParenExpr (BinaryExpr LT (VarRef ''usage'') (IntegerLiteral 3)))) \<and>
   newSeriesCursor \<lparr>Metrics = None\<rparr> \<lparr>IndexSet_MetricIterator = Inr (Some (0::nat))\<rparr>
     (Some (BinaryExpr AND (BinaryExpr EQ (VarRef ''host'') (StringLiteral ''a''))
        (ParenExpr (BinaryExpr LT (VarRef ''usage'') (IntegerLiteral 3))))) []
     = (Inl InvalidTagComparisonOperator, []) \<and>
   \<not> containsInvalidOperator (BinaryExpr EQ (VarRef ''host'') (StringLiteral ''a'')) \<and>
   newSeriesCursor \<lparr>Metrics = None\<rparr> \<lparr>IndexSet_MetricIterator = Inr (Some (0::nat))\<rparr>
     (Some (BinaryExpr EQ (VarRef ''host'') (StringLiteral ''a''))) []
     = (Inr \<lparr>cur_indexSet = \<lparr>IndexSet_MetricIterator = Inr (Some 0)\<rparr>, cur_mitr = Some 0,
             cur_keys = [], cur_ofs = 0, cur_row = \<lparr>row_Name = None, row_Tags = []\<rparr>,
             cur_cond = Some (BinaryExpr EQ (VarRef ''host'') (StringLiteral ''a''))\<rparr>,
        [IndexSet_MetricIterator_called])"
proof -
  let ?bad = "BinaryExpr AND (BinaryExpr EQ (VarRef ''host'') (StringLiteral ''a''))
        (ParenExpr (BinaryExpr LT (VarRef ''usage'') (IntegerLiteral 3)))"
  let ?good = "BinaryExpr EQ (VarRef ''host'') (StringLiteral ''a'')"
  let ?req = "\<lparr>Metrics = None\<rparr> :: nat SeriesCursorRequest"
  let ?is = "\<lparr>IndexSet_MetricIterator = Inr (Some (0::nat))\<rparr>"
  have a: "containsInvalidOperator ?bad" by (simp add: allowedOperator_def)
  have b: "\<not> containsInvalidOperator ?good" by (simp add: allowedOperator_def)
  from newSeriesCursor_validates_operators [of ?bad ?req ?is "[]" "Some ?good"] a b
  show ?thesis by simp
qed

subsection \<open>C9: tag keys by expression\<close>






text \<open>
  A comparison whose left-hand operand is not a variable reference returns the
  error that names the operator.
\<close>

lemma MetricTagKeysByExpr_left_side:
  assumes "tok = EQ \<or> tok = NEQ \<or> tok = EQREGEX \<or> tok = NEQREGEX"
    and "\<forall>tag. lhs \<noteq> VarRef tag"
  shows "MetricTagKeysByExpr fs name (Some (BinaryExpr tok lhs rhs))
    = Inr (Inl (LeftSideMustBeTagKey tok))"
  using assms by (cases lhs) (auto simp: MetricTagKeysByExpr_def)

text \<open>
  A nil regular expression makes \<^verbatim>\<open>tagKeysByFilter\<close> panic at the first element of
  the merged tag key iterator: \<^verbatim>\<open>regex.Match\<close> is called on the nil pointer. With no
  element there is no call and no panic.
\<close>

lemma tagKeysByFilter_nil_regex:
  assumes "FileSet_TagKeyIterator fs name = Some itr"
    and "merge_Next TagKeyElem.Key itr = (Some g, itr')"
    and "IsRegexOp tok"
  shows "tagKeysByFilter fs name tok val None = Inl NilPointerDereference"
  using assms(1,3) drain_Some [OF assms(2)]
  by (auto simp: tagKeysByFilter_def IsRegexOp_def)

lemma MetricTagKeysByExpr_nil_regex_panics:
  "MetricTagKeysByExpr (NewFileSet [] None [tagKeyFile 1 [k_host1]]) (Some ''cpu'')
     (Some (BinaryExpr EQREGEX (VarRef ''_tagKey'') (RegexLiteral None)))
     = Inl NilPointerDereference"
proof -
  let ?fs = "NewFileSet [] None [tagKeyFile 1 [k_host1]]"
  have a: "FileSet_TagKeyIterator ?fs (Some ''cpu'')
      = Some \<lparr>mrg_e = [], mrg_slots = [(None, [k_host1])]\<rparr>"
    by (simp add: FileSet_TagKeyIterator_def MergeTagKeyIterators_def MergeIterators_def
        NewFileSet_def tagKeyFile_def emptyFile_def List.map_filter_simps)
  have b: "merge_Next TagKeyElem.Key \<lparr>mrg_e = [], mrg_slots = [(None, [k_host1])]\<rparr>
      = (Some [k_host1], \<lparr>mrg_e = [k_host1], mrg_slots = [(None, [])]\<rparr>)"
    by (simp add: merge_Next_def lower_def bytes_Compare_def bytes_Equal_def content_def
        k_host1_def)
  from tagKeysByFilter_nil_regex [OF a b, of EQREGEX None] show ?thesis
    by (simp add: MetricTagKeysByExpr_def IsRegexOp_def)
qed





end
